theory Spec2Isabelle
  imports Complex_Main "HOL-Library.Multiset" "HOL-Library.Sublist"
begin

section \<open>JavaScript strings\<close>

text \<open>
  A JavaScript string is a sequence of UTF-16 code units. The model uses \<^typ>\<open>string\<close>,
  so it covers the strings whose code units are below 256 (ASCII and Latin-1); \<open>length\<close>,
  indexing and comparison then agree with JavaScript's.
\<close>

definition is_space :: "char \<Rightarrow> bool" where
  \<comment> \<open>the class \<open>\s\<close> (and what \<open>trim\<close> removes): TAB, LF, VT, FF, CR, space, NBSP\<close>
  "is_space c = (of_char c \<in> {9, 10, 11, 12, 13, 32, 160 :: nat})"

definition is_digit :: "char \<Rightarrow> bool" where
  \<comment> \<open>the class \<open>\d\<close>\<close>
  "is_digit c = (48 \<le> (of_char c :: nat) \<and> (of_char c :: nat) \<le> 57)"

definition is_word_char :: "char \<Rightarrow> bool" where
  \<comment> \<open>the class \<open>\w\<close>: \<open>[A-Za-z0-9_]\<close>\<close>
  "is_word_char c =
     (let n = (of_char c :: nat)
      in (65 \<le> n \<and> n \<le> 90) \<or> (97 \<le> n \<and> n \<le> 122) \<or> (48 \<le> n \<and> n \<le> 57) \<or> n = 95)"

definition to_lower_char :: "char \<Rightarrow> char" where
  "to_lower_char c =
     (let n = (of_char c :: nat)
      in if (65 \<le> n \<and> n \<le> 90) \<or> (192 \<le> n \<and> n \<le> 222 \<and> n \<noteq> 215)
         then char_of (n + 32) else c)"

definition toLowerCase :: "string \<Rightarrow> string" where
  "toLowerCase s = map to_lower_char s"

definition trim :: "string \<Rightarrow> string" where
  "trim s = rev (dropWhile is_space (rev (dropWhile is_space s)))"

fun collapse_spaces :: "string \<Rightarrow> string" where
  \<comment> \<open>\<open>replace(/\s+/g, ' ')\<close>: every maximal run of whitespace becomes one space\<close>
  "collapse_spaces [] = []"
| "collapse_spaces [c] = [if is_space c then CHR '' '' else c]"
| "collapse_spaces (c # d # cs) =
     (if is_space c
      then (if is_space d then collapse_spaces (d # cs) else CHR '' '' # collapse_spaces (d # cs))
      else c # collapse_spaces (d # cs))"

fun split_spaces_from :: "string \<Rightarrow> string \<Rightarrow> string list" where
  \<comment> \<open>\<open>split(/\s+/)\<close>, with the piece read so far (reversed) as first argument\<close>
  "split_spaces_from acc [] = [rev acc]"
| "split_spaces_from acc (c # cs) =
     (if is_space c
      then (if cs \<noteq> [] \<and> is_space (hd cs) then split_spaces_from acc cs
            else rev acc # split_spaces_from [] cs)
      else split_spaces_from (c # acc) cs)"

definition split_spaces :: "string \<Rightarrow> string list" where
  "split_spaces s = split_spaces_from [] s"

fun starts_with :: "string \<Rightarrow> string \<Rightarrow> bool" where
  "starts_with s [] = True"
| "starts_with [] (p # ps) = False"
| "starts_with (c # cs) (p # ps) = (c = p \<and> starts_with cs ps)"

fun str_includes :: "string \<Rightarrow> string \<Rightarrow> bool" where
  \<comment> \<open>\<open>hay.includes(needle)\<close> of JavaScript\<close>
  "str_includes [] needle = (needle = [])"
| "str_includes (c # cs) needle = (starts_with (c # cs) needle \<or> str_includes cs needle)"

section \<open>Match scoring\<close>

definition normalizeString :: "string \<Rightarrow> string" where
  "normalizeString str =
     trim (collapse_spaces (filter (\<lambda>c. is_word_char c \<or> is_space c) (toLowerCase str)))"

definition word_matches :: "string \<Rightarrow> string list \<Rightarrow> bool" where
  \<comment> \<open>the inner loop: some \<open>word2\<close> of length at least 3 equals, contains or is contained in \<open>word1\<close>\<close>
  "word_matches word1 words2 =
     list_ex (\<lambda>word2. \<not> length word2 < 3 \<and>
                (word1 = word2 \<or> str_includes word1 word2 \<or> str_includes word2 word1)) words2"

definition matchingWords :: "string list \<Rightarrow> string list \<Rightarrow> nat" where
  "matchingWords words1 words2 =
     length (filter (\<lambda>word1. \<not> length word1 < 3 \<and> word_matches word1 words2) words1)"

fun sameCharCount :: "string \<Rightarrow> string \<Rightarrow> nat" where
  \<comment> \<open>equal characters at equal indices, up to the shorter length\<close>
  "sameCharCount (a # as) (b # bs) = (if a = b then 1 else 0) + sameCharCount as bs"
| "sameCharCount _ _ = 0"

definition blendScore :: "string \<Rightarrow> string \<Rightarrow> real" where
  \<comment> \<open>the last part of \<open>calculateStringMatchScore\<close>, on the normalized strings\<close>
  "blendScore norm1 norm2 =
     (let words1 = split_spaces norm1;
          words2 = split_spaces norm2;
          wordSimilarity = real (matchingWords words1 words2) / real (max (length words1) (length words2));
          longerLength = max (length norm1) (length norm2);
          charSimilarity = real (sameCharCount norm1 norm2) / real longerLength
      in wordSimilarity * 0.7 + charSimilarity * 0.3)"

definition falsy :: "string option \<Rightarrow> bool" where
  \<comment> \<open>\<open>!str\<close>: the string is absent (\<open>undefined\<close>, \<open>null\<close>) or empty\<close>
  "falsy s = (case s of None \<Rightarrow> True | Some str \<Rightarrow> str = [])"

definition calculateStringMatchScore :: "string option \<Rightarrow> string option \<Rightarrow> real" where
  "calculateStringMatchScore str1 str2 =
     (if falsy str1 \<or> falsy str2 then 0
      else let norm1 = normalizeString (the str1); norm2 = normalizeString (the str2)
           in if norm1 = norm2 then 1
              else if str_includes norm1 norm2 \<or> str_includes norm2 norm1
                   then 0.8 * (real (min (length norm1) (length norm2)) /
                               real (max (length norm1) (length norm2)))
                   else blendScore norm1 norm2)"

subsection \<open>Identities and candidates\<close>

text \<open>
  A series position is a number or a string in the source (it is read with \<open>toString\<close> and
  \<open>parseInt\<close>). Numbers are modelled as integers (of magnitude below \<open>10^21\<close>, which
  \<open>toString\<close> prints in decimal notation).
\<close>

datatype position = PosNumber int | PosString string

record series_info =
  series_name :: "string option"
  series_position :: "position option"

record author_entry =
  author_name :: "string option"

record identity =
  fi_title :: "string option"
  fi_author :: "string option"
  fi_series :: "series_info option"

record candidate =
  md_title :: "string option"
  md_authors :: "author_entry list option"
  md_series :: "series_info option"

fun digits_of :: "nat \<Rightarrow> string" where
  "digits_of n = (if n < 10 then [char_of (48 + n)] else digits_of (n div 10) @ [char_of (48 + n mod 10)])"

fun position_toString :: "position \<Rightarrow> string" where
  "position_toString (PosString s) = s"
| "position_toString (PosNumber n) = (if n < 0 then CHR ''-'' # digits_of (nat (- n)) else digits_of (nat n))"

definition digit_value :: "char \<Rightarrow> nat" where
  "digit_value c = of_char c - 48"

definition parse_digits :: "string \<Rightarrow> nat option" where
  \<comment> \<open>the value of the leading decimal digits, \<open>None\<close> (NaN) when there is none\<close>
  "parse_digits s =
     (let ds = takeWhile is_digit s
      in if ds = [] then None else Some (foldl (\<lambda>acc c. 10 * acc + digit_value c) 0 ds))"

definition parseInt10 :: "string \<Rightarrow> int option" where
  \<comment> \<open>\<open>parseInt(s, 10)\<close>: leading whitespace, an optional sign, then digits; \<open>None\<close> is NaN\<close>
  "parseInt10 s =
     (case dropWhile is_space s of
        [] \<Rightarrow> None
      | c # cs \<Rightarrow>
          if c = CHR ''-'' then map_option (\<lambda>n. - int n) (parse_digits cs)
          else if c = CHR ''+'' then map_option int (parse_digits cs)
          else map_option int (parse_digits (c # cs)))"

definition position_truthy :: "position option \<Rightarrow> bool" where
  \<comment> \<open>the guard \<open>series.position && ...\<close>: absent, \<open>0\<close> and the empty string are falsy\<close>
  "position_truthy p =
     (case p of None \<Rightarrow> False | Some (PosNumber n) \<Rightarrow> n \<noteq> 0 | Some (PosString s) \<Rightarrow> s \<noteq> [])"

definition seriesPositionScore :: "position option \<Rightarrow> position option \<Rightarrow> real" where
  "seriesPositionScore fp mp =
     (if position_truthy fp \<and> position_truthy mp
      then (if position_toString (the fp) = position_toString (the mp) then 1
            else (case (parseInt10 (position_toString (the fp)), parseInt10 (position_toString (the mp))) of
                    (Some filePosition, Some metaPosition) \<Rightarrow> if filePosition = metaPosition then 1 else 0
                  | _ \<Rightarrow> 0))
      else 0)"

definition bestAuthorMatch :: "string option \<Rightarrow> author_entry list \<Rightarrow> real" where
  \<comment> \<open>\<open>Math.max(...authorMatches, 0)\<close>\<close>
  "bestAuthorMatch a authors = foldr max (map (\<lambda>au. calculateStringMatchScore a (author_name au)) authors) 0"

definition has_title :: "identity \<Rightarrow> candidate \<Rightarrow> bool" where
  "has_title fi md = (\<not> falsy (fi_title fi) \<and> \<not> falsy (md_title md))"

definition has_author :: "identity \<Rightarrow> candidate \<Rightarrow> bool" where
  "has_author fi md =
     (\<not> falsy (fi_author fi) \<and> (case md_authors md of None \<Rightarrow> False | Some authors \<Rightarrow> length authors > 0))"

definition has_series :: "identity \<Rightarrow> candidate \<Rightarrow> bool" where
  "has_series fi md = (fi_series fi \<noteq> None \<and> md_series md \<noteq> None)"

definition combinedSeriesScore :: "series_info \<Rightarrow> series_info \<Rightarrow> real" where
  "combinedSeriesScore fs ms =
     calculateStringMatchScore (series_name fs) (series_name ms) * 0.7 +
     seriesPositionScore (series_position fs) (series_position ms) * 0.3"

definition weighted_score :: "identity \<Rightarrow> candidate \<Rightarrow> real" where
  \<comment> \<open>the variable \<open>score\<close> after the three branches\<close>
  "weighted_score fi md =
     (if has_title fi md then calculateStringMatchScore (fi_title fi) (md_title md) * 60 else 0) +
     (if has_author fi md then bestAuthorMatch (fi_author fi) (the (md_authors md)) * 30 else 0) +
     (if has_series fi md then combinedSeriesScore (the (fi_series fi)) (the (md_series md)) * 10 else 0)"

definition maxScore :: "identity \<Rightarrow> candidate \<Rightarrow> real" where
  "maxScore fi md =
     (if has_title fi md then 60 else 0) + (if has_author fi md then 30 else 0) +
     (if has_series fi md then 10 else 0)"

definition calculateMatchScore :: "identity option \<Rightarrow> candidate option \<Rightarrow> real" where
  \<comment> \<open>\<open>None\<close> is a \<open>null\<close> or absent argument\<close>
  "calculateMatchScore fileInfo metadata =
     (case (fileInfo, metadata) of
        (Some fi, Some md) \<Rightarrow>
          if maxScore fi md = 0 then 0 else weighted_score fi md / maxScore fi md
      | _ \<Rightarrow> 0)"

subsection \<open>Ranking\<close>

datatype results_arg =
  ResultsAbsent
| ResultsNotArray
| ResultsArray "candidate option list"

record scored_result =
  sr_result :: "candidate option"
  sr_matchScore :: real

definition rankMetadataResults :: "identity option \<Rightarrow> results_arg \<Rightarrow> scored_result list" where
  \<comment> \<open>\<open>ResultsAbsent\<close> is \<open>null\<close> or \<open>undefined\<close>, \<open>ResultsNotArray\<close> any other value that
      is not an array; a scored result is the copy \<open>{...result, _matchScore: score}\<close>\<close>
  "rankMetadataResults fileInfo results =
     (case (fileInfo, results) of
        (Some fi, ResultsArray rs) \<Rightarrow>
          sort_key (\<lambda>r. - sr_matchScore r)
            (map (\<lambda>result. \<lparr>sr_result = result, sr_matchScore = calculateMatchScore fileInfo result\<rparr>) rs)
      | _ \<Rightarrow> [])"

subsection \<open>The blend as the specification words it\<close>

text \<open>
  The specification describes the last case of \<open>calculateStringMatchScore\<close> by counting:
  words of length at least 3 that are equal to, contain or are contained in a word of the
  other string, and equal characters at equal indices. \<open>spec_blend_capped\<close> follows its
  words, with the word count capped at the smaller number of words; \<open>spec_blend\<close> is the
  same without the cap. Both divide the word count by the larger number of words, as the
  source does.
\<close>

definition spec_wordOverlap :: "string list \<Rightarrow> string list \<Rightarrow> nat" where
  "spec_wordOverlap ws1 ws2 =
     length (filter (\<lambda>w1. 3 \<le> length w1 \<and>
               (\<exists>w2 \<in> set ws2. 3 \<le> length w2 \<and> (w1 = w2 \<or> sublist w2 w1 \<or> sublist w1 w2))) ws1)"

definition spec_positionalOverlap :: "string \<Rightarrow> string \<Rightarrow> nat" where
  "spec_positionalOverlap a b = card {i. i < min (length a) (length b) \<and> a ! i = b ! i}"

definition spec_blend_capped :: "string \<Rightarrow> string \<Rightarrow> real" where
  "spec_blend_capped n1 n2 =
     (let ws1 = split_spaces n1; ws2 = split_spaces n2
      in 0.7 * (real (min (spec_wordOverlap ws1 ws2) (min (length ws1) (length ws2))) /
                real (max (length ws1) (length ws2))) +
         0.3 * (real (spec_positionalOverlap n1 n2) / real (max (length n1) (length n2))))"

definition spec_blend :: "string \<Rightarrow> string \<Rightarrow> real" where
  "spec_blend n1 n2 =
     (let ws1 = split_spaces n1; ws2 = split_spaces n2
      in 0.7 * (real (spec_wordOverlap ws1 ws2) / real (max (length ws1) (length ws2))) +
         0.3 * (real (spec_positionalOverlap n1 n2) / real (max (length n1) (length n2))))"

section \<open>Paths\<close>

text \<open>
  The functions of Node's \<open>path\<close> module that the program calls, in their POSIX variant
  (\<open>/\<close> is the only separator). They belong to the runtime, not to the repository; the
  definitions give the result of Node's implementation for every input string.
\<close>

definition is_slash :: "char \<Rightarrow> bool" where
  "is_slash c = (c = CHR ''/'')"

definition strip_trailing_slashes :: "string \<Rightarrow> string" where
  "strip_trailing_slashes p = rev (dropWhile is_slash (rev p))"

definition last_segment :: "string \<Rightarrow> string" where
  \<comment> \<open>the characters after the last slash\<close>
  "last_segment p = rev (takeWhile (\<lambda>c. \<not> is_slash c) (rev p))"

definition before_last_segment :: "string \<Rightarrow> string" where
  \<comment> \<open>everything up to and including the last slash\<close>
  "before_last_segment p = rev (dropWhile (\<lambda>c. \<not> is_slash c) (rev p))"

definition ends_with :: "string \<Rightarrow> string \<Rightarrow> bool" where
  "ends_with s sfx = starts_with (rev s) (rev sfx)"

definition path_basename :: "string \<Rightarrow> string" where
  \<comment> \<open>\<open>path.basename(p)\<close>\<close>
  "path_basename p = last_segment (strip_trailing_slashes p)"

definition path_basename_ext :: "string \<Rightarrow> string \<Rightarrow> string" where
  \<comment> \<open>\<open>path.basename(p, suffix)\<close>; the suffix is dropped from the last component unless
      the component is the suffix itself. When the component is only the tail of a longer suffix,
      Node returns it together with the trailing slashes of \<open>p\<close>.\<close>
  "path_basename_ext p sfx =
     (let component = last_segment (strip_trailing_slashes p)
      in if sfx = [] \<or> length p < length sfx then component
         else if sfx = p then []
         else if component = [] then p
         else if ends_with component sfx
              then (if component = sfx then component else take (length component - length sfx) component)
         else if ends_with sfx component then component @ takeWhile is_slash (rev p)
         else component)"

definition path_extname :: "string \<Rightarrow> string" where
  \<comment> \<open>\<open>path.extname(p)\<close>: from the last dot of the last component, unless there is no dot,
      the dot is its first character, or the component is \<open>..\<close>\<close>
  "path_extname p =
     (let component = last_segment (strip_trailing_slashes p);
          ext = rev (takeWhile (\<lambda>c. c \<noteq> CHR ''.'') (rev component))
      in if CHR ''.'' \<notin> set component \<or> length ext + 1 = length component \<or> component = ''..'' then []
         else CHR ''.'' # ext)"

definition path_dirname :: "string \<Rightarrow> string" where
  \<comment> \<open>\<open>path.dirname(p)\<close>\<close>
  "path_dirname p =
     (if p = [] then ''.''
      else let body = strip_trailing_slashes p; pre = before_last_segment body
           in if body = [] then ''/''
              else if pre = [] then ''.''
              else if pre = ''/'' then ''/''
              else if pre = ''//'' then ''//''
              else butlast pre)"

fun split_slash_from :: "string \<Rightarrow> string \<Rightarrow> string list" where
  \<comment> \<open>the segments between slashes, the segment read so far (reversed) as first argument\<close>
  "split_slash_from acc [] = [rev acc]"
| "split_slash_from acc (c # cs) =
     (if is_slash c then rev acc # split_slash_from [] cs else split_slash_from (c # acc) cs)"

definition normalize_step :: "bool \<Rightarrow> string list \<Rightarrow> string \<Rightarrow> string list" where
  \<comment> \<open>one segment of \<open>normalizeString\<close>; the kept segments are a stack, last one first\<close>
  "normalize_step allowAboveRoot stack seg =
     (if seg = [] \<or> seg = ''.'' then stack
      else if seg = ''..''
           then (case stack of
                   seg0 # below \<Rightarrow>
                     if seg0 \<noteq> ''..'' then below
                     else if allowAboveRoot then ''..'' # stack else stack
                 | [] \<Rightarrow> if allowAboveRoot then [''..''] else [])
      else seg # stack)"

fun join_slash :: "string list \<Rightarrow> string" where
  "join_slash [] = []"
| "join_slash [s] = s"
| "join_slash (s # t # ss) = s @ CHR ''/'' # join_slash (t # ss)"

definition path_normalize :: "string \<Rightarrow> string" where
  \<comment> \<open>\<open>path.normalize(p)\<close>\<close>
  "path_normalize p =
     (if p = [] then ''.''
      else let isAbsolute = is_slash (hd p);
               trailingSeparator = is_slash (last p);
               res = join_slash (rev (foldl (normalize_step (\<not> isAbsolute)) [] (split_slash_from [] p)))
           in if res = [] then (if isAbsolute then ''/'' else if trailingSeparator then ''./'' else ''.'')
              else (if isAbsolute then ''/'' else []) @ res @ (if trailingSeparator then ''/'' else []))"

definition path_join :: "string \<Rightarrow> string \<Rightarrow> string" where
  \<comment> \<open>\<open>path.join(a, b)\<close>: empty arguments are skipped\<close>
  "path_join a b =
     (if a = [] \<and> b = [] then ''.''
      else if a = [] then path_normalize b
      else if b = [] then path_normalize a
      else path_normalize (a @ CHR ''/'' # b))"

section \<open>Grouping files into books\<close>

text \<open>
  A file entry as \<open>getFileInfo\<close> builds it. The time stamps \<open>created\<close> and \<open>modified\<close>
  are left out: grouping never reads them. Sizes are byte counts.
\<close>

record file_entry =
  fe_path :: string
  fe_name :: string
  fe_directory :: string
  fe_extension :: string
  fe_size :: nat

record book_group =
  bg_key :: string
  bg_name :: string
  bg_directory :: string
  bg_files :: "file_entry list"
  bg_totalSize :: nat

subsection \<open>The patterns\<close>

definition is_sep :: "char \<Rightarrow> bool" where
  \<comment> \<open>the class \<open>[_-\s]\<close>: underscore, hyphen or whitespace\<close>
  "is_sep c = (c = CHR ''_'' \<or> c = CHR ''-'' \<or> is_space c)"

definition starts_with_ci :: "string \<Rightarrow> string \<Rightarrow> bool" where
  \<comment> \<open>a lower-case ASCII word matched under the flag \<open>i\<close>\<close>
  "starts_with_ci s word = starts_with (toLowerCase (take (length word) s)) word"

definition parse_nat :: "string \<Rightarrow> nat" where
  \<comment> \<open>\<open>parseInt(ds, 10)\<close> on a string of digits\<close>
  "parse_nat ds = foldl (\<lambda>acc c. 10 * acc + digit_value c) 0 ds"

definition leading_number :: "string \<Rightarrow> (string \<times> string) option" where
  \<comment> \<open>\<open>/^(\d+)[_-\s]+/\<close>: the digits captured and what follows the match\<close>
  "leading_number s =
     (let ds = takeWhile is_digit s; r = dropWhile is_digit s
      in if ds \<noteq> [] \<and> r \<noteq> [] \<and> is_sep (hd r) then Some (ds, dropWhile is_sep r) else None)"

definition token_number_here :: "string \<Rightarrow> string \<Rightarrow> (string \<times> string) option" where
  \<comment> \<open>\<open>word[_-\s]*(\d+)[_-\s]*\<close> matched at the start of \<open>s\<close>: the digits and the rest\<close>
  "token_number_here word s =
     (if starts_with_ci s word
      then (let r = dropWhile is_sep (drop (length word) s); ds = takeWhile is_digit r
            in if ds \<noteq> [] then Some (ds, dropWhile is_sep (dropWhile is_digit r)) else None)
      else None)"

fun find_token_number :: "string \<Rightarrow> string \<Rightarrow> string option" where
  \<comment> \<open>the capture of the leftmost match of \<open>/word[_-\s]*(\d+)/i\<close>\<close>
  "find_token_number word [] = None"
| "find_token_number word (c # cs) =
     (case token_number_here word (c # cs) of
        Some (ds, r) \<Rightarrow> Some ds
      | None \<Rightarrow> find_token_number word cs)"

fun remove_token_number :: "string \<Rightarrow> string \<Rightarrow> string" where
  \<comment> \<open>\<open>replace(/word[_-\s]*\d+[_-\s]*/i, '')\<close>: the leftmost match is removed\<close>
  "remove_token_number word [] = []"
| "remove_token_number word (c # cs) =
     (case token_number_here word (c # cs) of
        Some (ds, r) \<Rightarrow> r
      | None \<Rightarrow> c # remove_token_number word cs)"

definition trailing_token_here :: "string \<Rightarrow> string \<Rightarrow> bool" where
  \<comment> \<open>\<open>\s+word\s*\d+$\<close> matched on the whole of \<open>s\<close>, which starts with whitespace\<close>
  "trailing_token_here word s =
     (let r1 = dropWhile is_space s
      in starts_with_ci r1 word \<and>
         (let r2 = dropWhile is_space (drop (length word) r1)
          in r2 \<noteq> [] \<and> list_all is_digit r2))"

fun remove_trailing_token :: "string \<Rightarrow> string \<Rightarrow> string" where
  \<comment> \<open>\<open>replace(/\s+word\s*\d+$/i, '')\<close>\<close>
  "remove_trailing_token word [] = []"
| "remove_trailing_token word (c # cs) =
     (if is_space c \<and> trailing_token_here word (c # cs) then []
      else c # remove_trailing_token word cs)"

definition trailing_number_here :: "string \<Rightarrow> string option" where
  \<comment> \<open>\<open>(\d+)\s*\.[^.]+$\<close> matched on the whole of \<open>s\<close>\<close>
  "trailing_number_here s =
     (let ds = takeWhile is_digit s; r = dropWhile is_space (dropWhile is_digit s)
      in if ds \<noteq> [] \<and> r \<noteq> [] \<and> hd r = CHR ''.'' \<and> tl r \<noteq> [] \<and> CHR ''.'' \<notin> set (tl r)
         then Some ds else None)"

fun find_trailing_number :: "string \<Rightarrow> string option" where
  \<comment> \<open>the capture of the leftmost match of \<open>/\s(\d+)\s*\.[^.]+$/\<close>\<close>
  "find_trailing_number [] = None"
| "find_trailing_number (c # cs) =
     (if is_space c \<and> trailing_number_here cs \<noteq> None then trailing_number_here cs
      else find_trailing_number cs)"

fun squash_separators :: "string \<Rightarrow> string" where
  \<comment> \<open>\<open>replace(/[_-]+/g, ' ')\<close>\<close>
  "squash_separators [] = []"
| "squash_separators [c] = [if c = CHR ''_'' \<or> c = CHR ''-'' then CHR '' '' else c]"
| "squash_separators (c # d # cs) =
     (if c = CHR ''_'' \<or> c = CHR ''-''
      then (if d = CHR ''_'' \<or> d = CHR ''-'' then squash_separators (d # cs)
            else CHR '' '' # squash_separators (d # cs))
      else c # squash_separators (d # cs))"

subsection \<open>The scanner's helpers\<close>

definition extractTrackNumber :: "string \<Rightarrow> nat option" where
  \<comment> \<open>\<open>None\<close> is \<open>null\<close>; the first pattern that matches decides\<close>
  "extractTrackNumber filename =
     (case find_token_number ''track'' filename of
        Some ds \<Rightarrow> Some (parse_nat ds)
      | None \<Rightarrow>
     (case find_token_number ''chapter'' filename of
        Some ds \<Rightarrow> Some (parse_nat ds)
      | None \<Rightarrow>
     (case leading_number filename of
        Some (ds, r) \<Rightarrow> Some (parse_nat ds)
      | None \<Rightarrow>
     (case find_trailing_number filename of
        Some ds \<Rightarrow> Some (parse_nat ds)
      | None \<Rightarrow> None))))"

definition strip_numbering :: "string \<Rightarrow> string" where
  \<comment> \<open>the five replacements shared by \<open>_identifyBookKey\<close> and \<open>_extractBookName\<close>\<close>
  "strip_numbering baseName =
     remove_trailing_token ''disc''
       (remove_trailing_token ''part''
         (remove_token_number ''chapter''
           (remove_token_number ''track''
             (case leading_number baseName of Some (ds, r) \<Rightarrow> r | None \<Rightarrow> baseName))))"

definition identifyBookKey :: "file_entry \<Rightarrow> string" where
  "identifyBookKey file =
     (let baseName = path_basename_ext (fe_name file) (fe_extension file);
          stripped = trim (strip_numbering baseName);
          bookName = (if length stripped < 3 \<and> length baseName > 0 then baseName else stripped);
          dirBaseName = path_basename (fe_directory file)
      in toLowerCase (dirBaseName @ CHR ''_'' # bookName))"

definition extractBookName :: "string \<Rightarrow> string" where
  "extractBookName filename =
     trim (squash_separators (strip_numbering (path_basename_ext filename (path_extname filename))))"

subsection \<open>Grouping\<close>

text \<open>
  \<open>localeCompare\<close> depends on the collation of the runtime, so the order it induces is a
  parameter: \<open>le a b\<close> stands for \<open>a.localeCompare(b) <= 0\<close>. Both sorts are stable, as
  \<open>Array.prototype.sort\<close> is.
\<close>

fun insert_by :: "('a \<Rightarrow> 'a \<Rightarrow> bool) \<Rightarrow> 'a \<Rightarrow> 'a list \<Rightarrow> 'a list" where
  "insert_by le x [] = [x]"
| "insert_by le x (y # ys) = (if le x y then x # y # ys else y # insert_by le x ys)"

definition sort_by :: "('a \<Rightarrow> 'a \<Rightarrow> bool) \<Rightarrow> 'a list \<Rightarrow> 'a list" where
  "sort_by le xs = foldr (insert_by le) xs []"

definition new_book :: "file_entry \<Rightarrow> book_group" where
  "new_book file =
     \<lparr>bg_key = identifyBookKey file, bg_name = extractBookName (fe_name file),
      bg_directory = fe_directory file, bg_files = [file], bg_totalSize = fe_size file\<rparr>"

definition add_file :: "book_group list \<Rightarrow> file_entry \<Rightarrow> book_group list" where
  \<comment> \<open>one round of the loop; \<open>bookMap\<close> finds the book of \<open>books\<close> that has the key\<close>
  "add_file books file =
     (let bookKey = identifyBookKey file
      in if \<not> list_ex (\<lambda>b. bg_key b = bookKey) books
         then books @ [new_book file]
         else map (\<lambda>book. if bg_key book = bookKey
                            then book\<lparr>bg_files := bg_files book @ [file],
                                      bg_totalSize := bg_totalSize book + fe_size file\<rparr>
                            else book) books)"

definition track_order :: "file_entry \<Rightarrow> nat" where
  \<comment> \<open>\<open>this._extractTrackNumber(a.name) || 0\<close>\<close>
  "track_order f = (case extractTrackNumber (fe_name f) of None \<Rightarrow> 0 | Some n \<Rightarrow> n)"

definition groupFilesByBooks :: "(string \<Rightarrow> string \<Rightarrow> bool) \<Rightarrow> file_entry list \<Rightarrow> book_group list" where
  "groupFilesByBooks le files =
     (let sortedFiles = sort_by (\<lambda>a b. le (fe_name a) (fe_name b)) files;
          books = foldl add_file [] sortedFiles
      in map (\<lambda>book. book\<lparr>bg_files := sort_key track_order (bg_files book)\<rparr>) books)"

section \<open>The task queue\<close>

text \<open>
  \<open>createQueue(concurrency)\<close> keeps the array \<open>queue\<close> of waiting tasks and the counters
  \<open>running\<close>, \<open>completed\<close> and \<open>failed\<close>. A task is identified by its submission number.
  The state records which tasks are counted by each counter (the counters are the lengths of
  the lists), the tasks rejected by \<open>clear\<close>, and the order in which tasks were started.
  The program runs on one thread, so its behaviour is the sequence of its events: a call of
  \<open>add\<close>, the settling of a running task (its promise is fulfilled or rejected), a call of
  \<open>clear\<close>.
\<close>

record queue_state =
  q_next :: nat
  q_queue :: "nat list"
  q_running :: "nat list"
  q_completed :: "nat list"
  q_failed :: "nat list"
  q_cancelled :: "nat list"
  q_started :: "nat list"

datatype outcome = Fulfilled | Rejected

datatype queue_event = Add | Settle nat outcome | Clear

definition createQueue :: queue_state where
  "createQueue =
     \<lparr>q_next = 0, q_queue = [], q_running = [], q_completed = [], q_failed = [],
      q_cancelled = [], q_started = []\<rparr>"

definition processNext :: "nat \<Rightarrow> queue_state \<Rightarrow> queue_state" where
  "processNext concurrency s =
     (if length (q_queue s) = 0 \<or> length (q_running s) \<ge> concurrency then s
      else s\<lparr>q_queue := tl (q_queue s),
              q_running := q_running s @ [hd (q_queue s)],
              q_started := q_started s @ [hd (q_queue s)]\<rparr>)"

fun queue_step :: "nat \<Rightarrow> queue_state \<Rightarrow> queue_event \<Rightarrow> queue_state" where
  "queue_step concurrency s Add =
     processNext concurrency (s\<lparr>q_queue := q_queue s @ [q_next s], q_next := Suc (q_next s)\<rparr>)"
| "queue_step concurrency s (Settle t Fulfilled) =
     (if t \<in> set (q_running s)
      then processNext concurrency
             (s\<lparr>q_running := remove1 t (q_running s), q_completed := q_completed s @ [t]\<rparr>)
      else s)"
| "queue_step concurrency s (Settle t Rejected) =
     (if t \<in> set (q_running s)
      then processNext concurrency
             (s\<lparr>q_running := remove1 t (q_running s), q_failed := q_failed s @ [t]\<rparr>)
      else s)"
| "queue_step concurrency s Clear =
     s\<lparr>q_queue := [], q_cancelled := q_cancelled s @ q_queue s\<rparr>"

definition queue_run :: "nat \<Rightarrow> queue_event list \<Rightarrow> queue_state" where
  \<comment> \<open>the state after a sequence of events on a fresh queue; only a running task can settle,
      so a \<open>Settle\<close> of any other task changes nothing\<close>
  "queue_run concurrency events = foldl (queue_step concurrency) createQueue events"

definition pending :: "queue_state \<Rightarrow> nat" where
  \<comment> \<open>the tasks not yet settled\<close>
  "pending s = length (q_queue s) + length (q_running s)"

definition next_to_settle :: "(queue_state \<Rightarrow> nat) \<Rightarrow> queue_state \<Rightarrow> nat" where
  \<comment> \<open>the running task that settles next: the one \<open>pick\<close> names, the oldest one when
      \<open>pick\<close> names a task that is not running\<close>
  "next_to_settle pick s = (if pick s \<in> set (q_running s) then pick s else hd (q_running s))"

function settle_all ::
    "nat \<Rightarrow> (queue_state \<Rightarrow> nat) \<Rightarrow> (nat \<Rightarrow> outcome) \<Rightarrow> queue_state \<Rightarrow> queue_state" where
  \<comment> \<open>the queue left alone while every running task settles, in the order \<open>pick\<close> chooses,
      task \<open>t\<close> with the outcome \<open>result t\<close>\<close>
  "settle_all concurrency pick result s =
     (if q_running s = [] then s
      else settle_all concurrency pick result
             (queue_step concurrency s (Settle (next_to_settle pick s) (result (next_to_settle pick s)))))"
  by pat_completeness auto
termination
proof (relation "measure (\<lambda>(concurrency, pick, result, s). pending s)")
  show "wf (measure (\<lambda>(concurrency, pick, result, s). pending s))" by simp
next
  fix concurrency :: nat and pick :: "queue_state \<Rightarrow> nat" and result :: "nat \<Rightarrow> outcome"
    and s :: queue_state
  assume r: "q_running s \<noteq> []"
  let ?t = "next_to_settle pick s"
  have m: "?t \<in> set (q_running s)" using r by (simp add: next_to_settle_def)
  have "0 < length (q_running s)" using r by simp
  then have l: "length (remove1 ?t (q_running s)) < length (q_running s)"
    using m by (simp add: length_remove1)
  have "pending (queue_step concurrency s (Settle ?t (result ?t))) < pending s"
  proof (cases "q_queue s")
    case Nil
    then show ?thesis
      using m l by (cases "result ?t") (auto simp: pending_def processNext_def)
  next
    case (Cons w ws)
    then show ?thesis
      using m l by (cases "result ?t") (auto simp: pending_def processNext_def)
  qed
  then show "((concurrency, pick, result, queue_step concurrency s (Settle ?t (result ?t))),
              (concurrency, pick, result, s)) \<in> measure (\<lambda>(concurrency, pick, result, s). pending s)"
    by simp
qed

declare settle_all.simps [simp del]

definition queue_inv :: "nat \<Rightarrow> queue_state \<Rightarrow> bool" where
  \<comment> \<open>what holds in every state the queue can reach\<close>
  "queue_inv concurrency s =
     (length (q_running s) \<le> concurrency \<and>
      (q_queue s = [] \<or> length (q_running s) = concurrency) \<and>
      distinct (q_queue s @ q_running s @ q_completed s @ q_failed s @ q_cancelled s) \<and>
      set (q_queue s @ q_running s @ q_completed s @ q_failed s @ q_cancelled s) = {..<q_next s} \<and>
      sorted_wrt (<) (q_started s @ q_queue s) \<and>
      set (q_started s) = set (q_running s @ q_completed s @ q_failed s))"

definition count_adds :: "queue_event list \<Rightarrow> nat" where
  "count_adds events = length (filter (\<lambda>e. e = Add) events)"

section \<open>Directory scanning\<close>

text \<open>
  The file system a scan reads, as a tree: what \<open>readdir\<close> returns for a directory (or that it
  rejects), what \<open>stat\<close> returns for a file (its size, or that it throws), and for a symbolic
  link the resolved path and what lies there. Cycles through links are outside the model.
\<close>

datatype listing = Unreadable | Entries "fs_node list"
and fs_node =
    FileNode string "nat option"
  | DirNode string listing
  | LinkToDir string string listing
  | LinkToFile string string "nat option"
  | LinkToOther string
  | BrokenLink string
  | OtherNode string

datatype root_stat = DoesNotExist | StatFails | NotADirectory | Directory listing

datatype scan_error = InvalidPath | DirectoryDoesNotExist | PathIsNotDirectory | StatFailed

datatype scan_result = ReturnedError scan_error | ReturnedFiles "file_entry list"

record scan_options =
  opt_recursive :: bool
  opt_maxDepth :: int
  opt_followSymlinks :: bool
  opt_includeHidden :: bool
  opt_aborted :: bool

record fs_config =
  cfg_maxScanDepth :: "int option"
  cfg_followSymlinks :: "bool option"
  cfg_includeHidden :: "bool option"

record scan_request =
  req_recursive :: "bool option"
  req_maxDepth :: "int option"
  req_followSymlinks :: "bool option"
  req_includeHidden :: "bool option"
  req_aborted :: bool

definition SUPPORTED_EXTENSIONS :: "string list" where
  "SUPPORTED_EXTENSIONS = [''.mp3'', ''.m4a'', ''.m4b'', ''.aac'', ''.ogg'', ''.flac'', ''.opus'']"

definition isSupportedAudioFormat :: "string \<Rightarrow> bool" where
  "isSupportedAudioFormat filePath = (toLowerCase (path_extname filePath) \<in> set SUPPORTED_EXTENSIONS)"

definition getFileInfo :: "(string \<Rightarrow> bool) \<Rightarrow> string \<Rightarrow> nat option \<Rightarrow> file_entry option" where
  \<comment> \<open>\<open>None\<close> when \<open>validateFilePath\<close> or \<open>stat\<close> throws; \<open>validateFilePath\<close> is not among the
      sources and is a parameter, \<open>valid p\<close> meaning that it accepts \<open>p\<close>\<close>
  "getFileInfo valid filePath stats =
     (if \<not> valid filePath then None
      else case stats of
             None \<Rightarrow> None
           | Some sz \<Rightarrow>
               Some \<lparr>fe_path = filePath, fe_name = path_basename filePath,
                     fe_directory = path_dirname filePath,
                     fe_extension = toLowerCase (path_extname filePath), fe_size = sz\<rparr>)"

definition skipped_hidden :: "scan_options \<Rightarrow> string \<Rightarrow> bool" where
  "skipped_hidden options name = (\<not> opt_includeHidden options \<and> starts_with name ''.'')"

text \<open>
  \<open>_scanDirectoryRecursive\<close> and its loop over the entries. The loop and one round of it
  return \<open>None\<close> when an exception leaves them; the \<open>catch\<close> of the directory turns that
  into the empty result. The abort signal is taken as constant during a scan.
\<close>

fun scanDirectoryRecursive ::
    "(string \<Rightarrow> bool) \<Rightarrow> scan_options \<Rightarrow> string \<Rightarrow> nat \<Rightarrow> listing \<Rightarrow> file_entry list"
  and scan_entries ::
    "(string \<Rightarrow> bool) \<Rightarrow> scan_options \<Rightarrow> string \<Rightarrow> nat \<Rightarrow> fs_node list \<Rightarrow> file_entry list option"
  and scan_entry ::
    "(string \<Rightarrow> bool) \<Rightarrow> scan_options \<Rightarrow> string \<Rightarrow> nat \<Rightarrow> fs_node \<Rightarrow> file_entry list option"
where
  "scanDirectoryRecursive valid options dirPath currentDepth Unreadable = []"
| "scanDirectoryRecursive valid options dirPath currentDepth (Entries entries) =
     (if opt_aborted options then []
      else if opt_maxDepth options > 0 \<and> int currentDepth > opt_maxDepth options then []
      else case scan_entries valid options dirPath currentDepth entries of
             None \<Rightarrow> []
           | Some results \<Rightarrow> results)"
| "scan_entries valid options dirPath currentDepth [] = Some []"
| "scan_entries valid options dirPath currentDepth (entry # rest) =
     (case scan_entry valid options dirPath currentDepth entry of
        None \<Rightarrow> None
      | Some found \<Rightarrow>
          (case scan_entries valid options dirPath currentDepth rest of
             None \<Rightarrow> None
           | Some others \<Rightarrow> Some (found @ others)))"
| "scan_entry valid options dirPath currentDepth (FileNode name stats) =
     (if skipped_hidden options name then Some []
      else if isSupportedAudioFormat (path_join dirPath name)
           then (case getFileInfo valid (path_join dirPath name) stats of
                   None \<Rightarrow> None
                 | Some fileInfo \<Rightarrow> Some [fileInfo])
           else Some [])"
| "scan_entry valid options dirPath currentDepth (DirNode name sub) =
     (if skipped_hidden options name then Some []
      else if opt_recursive options
           then Some (scanDirectoryRecursive valid options (path_join dirPath name) (currentDepth + 1) sub)
           else Some [])"
| "scan_entry valid options dirPath currentDepth (LinkToDir name resolvedPath sub) =
     (if skipped_hidden options name \<or> \<not> opt_followSymlinks options then Some []
      else if opt_recursive options
           then Some (scanDirectoryRecursive valid options resolvedPath (currentDepth + 1) sub)
           else Some [])"
| "scan_entry valid options dirPath currentDepth (LinkToFile name resolvedPath stats) =
     (if skipped_hidden options name \<or> \<not> opt_followSymlinks options then Some []
      else if isSupportedAudioFormat resolvedPath
           then (case getFileInfo valid resolvedPath stats of
                   None \<Rightarrow> Some []
                 | Some fileInfo \<Rightarrow> Some [fileInfo])
           else Some [])"
| "scan_entry valid options dirPath currentDepth (LinkToOther name) = Some []"
| "scan_entry valid options dirPath currentDepth (BrokenLink name) = Some []"
| "scan_entry valid options dirPath currentDepth (OtherNode name) = Some []"

definition defaultScanOptions :: "fs_config \<Rightarrow> scan_options" where
  \<comment> \<open>the constructor of \<open>FileSystemService\<close>; \<open>config.maxScanDepth || 5\<close> replaces 0 as well
      as a missing value\<close>
  "defaultScanOptions config =
     \<lparr>opt_recursive = True,
      opt_maxDepth = (case cfg_maxScanDepth config of None \<Rightarrow> 5 | Some d \<Rightarrow> if d = 0 then 5 else d),
      opt_followSymlinks = (cfg_followSymlinks config \<noteq> Some False),
      opt_includeHidden = (cfg_includeHidden config = Some True),
      opt_aborted = False\<rparr>"

definition merge_options :: "scan_options \<Rightarrow> scan_request \<Rightarrow> scan_options" where
  \<comment> \<open>\<open>{...this.defaultScanOptions, ...options}\<close>\<close>
  "merge_options defaults request =
     \<lparr>opt_recursive = (case req_recursive request of None \<Rightarrow> opt_recursive defaults | Some b \<Rightarrow> b),
      opt_maxDepth = (case req_maxDepth request of None \<Rightarrow> opt_maxDepth defaults | Some d \<Rightarrow> d),
      opt_followSymlinks =
        (case req_followSymlinks request of None \<Rightarrow> opt_followSymlinks defaults | Some b \<Rightarrow> b),
      opt_includeHidden =
        (case req_includeHidden request of None \<Rightarrow> opt_includeHidden defaults | Some b \<Rightarrow> b),
      opt_aborted = req_aborted request\<rparr>"

definition scanDirectory ::
    "(string \<Rightarrow> bool) \<Rightarrow> fs_config \<Rightarrow> scan_request \<Rightarrow> string \<Rightarrow> root_stat \<Rightarrow> scan_result" where
  \<comment> \<open>\<open>FileSystemService.scanDirectory\<close>: an error thrown inside is handed to
      \<open>errorHandler.handle\<close>, which logs it and returns it, and that error object is what the
      call returns\<close>
  "scanDirectory valid config request dirPath rootStat =
     (if \<not> valid dirPath then ReturnedError InvalidPath
      else case rootStat of
             DoesNotExist \<Rightarrow> ReturnedError DirectoryDoesNotExist
           | StatFails \<Rightarrow> ReturnedError StatFailed
           | NotADirectory \<Rightarrow> ReturnedError PathIsNotDirectory
           | Directory dir \<Rightarrow>
               ReturnedFiles
                 (scanDirectoryRecursive valid (merge_options (defaultScanOptions config) request)
                    dirPath 1 dir))"

subsection \<open>Cutting a tree off below a depth\<close>

fun prune_listing :: "nat \<Rightarrow> listing \<Rightarrow> listing"
  and prune_node :: "nat \<Rightarrow> fs_node \<Rightarrow> fs_node"
where
  "prune_listing k Unreadable = Unreadable"
| "prune_listing 0 (Entries entries) = Entries []"
| "prune_listing (Suc k) (Entries entries) = Entries (map (prune_node k) entries)"
| "prune_node k (DirNode name sub) = DirNode name (prune_listing k sub)"
| "prune_node k (LinkToDir name resolvedPath sub) = LinkToDir name resolvedPath (prune_listing k sub)"
| "prune_node k (FileNode name stats) = FileNode name stats"
| "prune_node k (LinkToFile name resolvedPath stats) = LinkToFile name resolvedPath stats"
| "prune_node k (LinkToOther name) = LinkToOther name"
| "prune_node k (BrokenLink name) = BrokenLink name"
| "prune_node k (OtherNode name) = OtherNode name"

section \<open>Sanitizing a target path\<close>

definition invalidChars :: "char list" where
  \<comment> \<open>the class \<open>[<>:"|?*\\]\<close>: the last two are the double quote and the backslash\<close>
  "invalidChars = [CHR ''<'', CHR ''>'', CHR '':'', CHR ''|'', CHR ''?'', CHR ''*'', CHR 0x22, CHR 0x5C]"

definition replace_invalid :: "string \<Rightarrow> string" where
  \<comment> \<open>\<open>replace(invalidChars, '_')\<close>\<close>
  "replace_invalid s = map (\<lambda>c. if c \<in> set invalidChars then CHR ''_'' else c) s"

definition MAX_PATH_LENGTH :: nat where
  "MAX_PATH_LENGTH = 240"

definition substring_from_start :: "string \<Rightarrow> int \<Rightarrow> string" where
  \<comment> \<open>\<open>s.substring(0, n)\<close>: a negative \<open>n\<close> counts as 0\<close>
  "substring_from_start s n = take (nat n) s"

definition sanitizeFilePath :: "string \<Rightarrow> string" where
  "sanitizeFilePath filePath =
     (let sanitized = collapse_spaces (replace_invalid filePath)
      in if length sanitized > MAX_PATH_LENGTH
         then (let ext = path_extname sanitized;
                   dirName = path_dirname sanitized;
                   baseName = path_basename_ext sanitized ext;
                   maxBaseNameLength = int MAX_PATH_LENGTH - int (length dirName) - int (length ext) - 1;
                   truncatedBaseName = substring_from_start baseName maxBaseNameLength
               in path_join dirName (truncatedBaseName @ ext))
         else sanitized)"

fun single_spaced :: "string \<Rightarrow> bool" where
  \<comment> \<open>every whitespace character is a space and no two of them are adjacent\<close>
  "single_spaced [] = True"
| "single_spaced [c] = (\<not> is_space c \<or> c = CHR '' '')"
| "single_spaced (c # d # cs) =
     ((\<not> is_space c \<or> (c = CHR '' '' \<and> \<not> is_space d)) \<and> single_spaced (d # cs))"

definition free_of_invalid :: "string \<Rightarrow> bool" where
  "free_of_invalid s = list_all (\<lambda>c. c \<notin> set invalidChars) s"

section \<open>Properties of the match score\<close>

lemma sameCharCount_le: "sameCharCount a b \<le> min (length a) (length b)"
  by (induction a b rule: sameCharCount.induct) auto

lemma matchingWords_le: "matchingWords w1 w2 \<le> length w1"
  by (simp add: matchingWords_def)

lemma split_spaces_from_nonempty: "split_spaces_from acc s \<noteq> []"
  by (induction s arbitrary: acc) auto

lemma split_spaces_length: "1 \<le> length (split_spaces s)"
  using split_spaces_from_nonempty [of "[]" s]
  by (cases "split_spaces s") (auto simp: split_spaces_def)

lemma ratio_bounds:
  fixes a b :: nat
  assumes "a \<le> b"
  shows "0 \<le> real a / real b \<and> real a / real b \<le> 1"
  using assms by (auto simp: divide_le_eq_1)

lemma blendScore_bounds: "0 \<le> blendScore n1 n2 \<and> blendScore n1 n2 \<le> 1"
proof -
  let ?w = "real (matchingWords (split_spaces n1) (split_spaces n2)) /
            real (max (length (split_spaces n1)) (length (split_spaces n2)))"
  let ?c = "real (sameCharCount n1 n2) / real (max (length n1) (length n2))"
  have "matchingWords (split_spaces n1) (split_spaces n2)
          \<le> max (length (split_spaces n1)) (length (split_spaces n2))"
    using matchingWords_le [of "split_spaces n1" "split_spaces n2"] by linarith
  then have w: "0 \<le> ?w \<and> ?w \<le> 1" by (rule ratio_bounds)
  have "sameCharCount n1 n2 \<le> max (length n1) (length n2)"
    using sameCharCount_le [of n1 n2] by linarith
  then have c: "0 \<le> ?c \<and> ?c \<le> 1" by (rule ratio_bounds)
  have eq: "blendScore n1 n2 = ?w * 0.7 + ?c * 0.3"
    by (simp add: blendScore_def Let_def)
  show ?thesis unfolding eq using w c by simp
qed

lemma containment_bounds:
  "0 \<le> 0.8 * (real (min m n) / real (max m n)) \<and> 0.8 * (real (min m n) / real (max m n)) \<le> 1"
proof -
  have "min m n \<le> max m n" by simp
  from ratio_bounds [OF this] show ?thesis by simp
qed

lemma stringScore_bounds:
  "0 \<le> calculateStringMatchScore a b \<and> calculateStringMatchScore a b \<le> 1"
  unfolding calculateStringMatchScore_def Let_def
  using blendScore_bounds containment_bounds
  by (simp del: min.absorb1 min.absorb2 max.absorb1 max.absorb2 split: if_splits)

lemma bestAuthorMatch_bounds: "0 \<le> bestAuthorMatch a as \<and> bestAuthorMatch a as \<le> 1"
  unfolding bestAuthorMatch_def
  using stringScore_bounds by (induction as) (auto simp: max_def)

lemma seriesPositionScore_bounds: "0 \<le> seriesPositionScore p q \<and> seriesPositionScore p q \<le> 1"
  by (simp add: seriesPositionScore_def split: option.splits)

lemma combinedSeriesScore_bounds: "0 \<le> combinedSeriesScore s t \<and> combinedSeriesScore s t \<le> 1"
  unfolding combinedSeriesScore_def
  using stringScore_bounds [of "series_name s" "series_name t"]
        seriesPositionScore_bounds [of "series_position s" "series_position t"]
  by simp

lemma weighted_score_bounds: "0 \<le> weighted_score fi md \<and> weighted_score fi md \<le> maxScore fi md"
  unfolding weighted_score_def maxScore_def
  using stringScore_bounds [of "fi_title fi" "md_title md"]
        bestAuthorMatch_bounds [of "fi_author fi" "the (md_authors md)"]
        combinedSeriesScore_bounds [of "the (fi_series fi)" "the (md_series md)"]
  by simp

lemma maxScore_nonneg: "0 \<le> maxScore fi md"
  by (simp add: maxScore_def)

lemma matchScore_bounds: "0 \<le> calculateMatchScore f m \<and> calculateMatchScore f m \<le> 1"
proof (cases f)
  case None then show ?thesis by (simp add: calculateMatchScore_def)
next
  case (Some fi)
  show ?thesis
  proof (cases m)
    case None then show ?thesis using Some by (simp add: calculateMatchScore_def)
  next
    case (Some md)
    show ?thesis
      using \<open>f = Some fi\<close> Some weighted_score_bounds [of fi md] maxScore_nonneg [of fi md]
      by (simp add: calculateMatchScore_def divide_le_eq_1)
  qed
qed

lemma stringScore_same: "t \<noteq> [] \<Longrightarrow> calculateStringMatchScore (Some t) (Some t) = 1"
  by (simp add: calculateStringMatchScore_def falsy_def)

lemma bestAuthorMatch_one:
  assumes "au \<in> set authors" "calculateStringMatchScore a (author_name au) = 1"
  shows "bestAuthorMatch a authors = 1"
proof -
  have "foldr max (map (\<lambda>au. calculateStringMatchScore a (author_name au)) as) 0 = 1"
    if "au \<in> set as" for as
    using that
  proof (induction as)
    case Nil then show ?case by simp
  next
    case (Cons x xs)
    have b: "foldr max (map (\<lambda>au. calculateStringMatchScore a (author_name au)) xs) 0 \<le> 1"
      using bestAuthorMatch_bounds [of a xs] by (simp add: bestAuthorMatch_def)
    have c: "calculateStringMatchScore a (author_name x) \<le> 1"
      using stringScore_bounds by simp
    show ?case
    proof (cases "au = x")
      case True then show ?thesis using assms(2) b by (simp add: max.absorb1)
    next
      case False
      then have "au \<in> set xs" using Cons.prems by simp
      from Cons.IH [OF this] show ?thesis using c by (simp add: max.absorb2)
    qed
  qed
  from this [OF assms(1)] show ?thesis by (simp add: bestAuthorMatch_def)
qed

text \<open>
  Claim C1. For every identity and every candidate, \<open>calculateMatchScore\<close> returns a number
  in the closed interval from 0 to 1 (also when an argument is \<open>null\<close>); and when both sides
  carry the same non-empty title, one of the candidate's authors has the identity's non-empty
  author as its name, and the series field is not present on both sides, the score is exactly 1.
  The score is computed over the reals; the bound carries over to the source's doubles because
  rounding is monotone and the weights 0.7 and 0.3 add up to 1 there.
\<close>

theorem calculateMatchScore_range_and_identical:
  "(0 \<le> calculateMatchScore fileInfo metadata \<and> calculateMatchScore fileInfo metadata \<le> 1) \<and>
   (\<forall>fi md t a authors.
      fileInfo = Some fi \<and> metadata = Some md \<and>
      fi_title fi = Some t \<and> md_title md = Some t \<and> t \<noteq> [] \<and>
      fi_author fi = Some a \<and> a \<noteq> [] \<and>
      md_authors md = Some authors \<and> (\<exists>au \<in> set authors. author_name au = Some a) \<and>
      \<not> (fi_series fi \<noteq> None \<and> md_series md \<noteq> None)
      \<longrightarrow> calculateMatchScore fileInfo metadata = 1)"
proof (intro conjI allI impI)
  show "0 \<le> calculateMatchScore fileInfo metadata" using matchScore_bounds by simp
  show "calculateMatchScore fileInfo metadata \<le> 1" using matchScore_bounds by simp
next
  fix fi md t a authors
  assume h: "fileInfo = Some fi \<and> metadata = Some md \<and>
      fi_title fi = Some t \<and> md_title md = Some t \<and> t \<noteq> [] \<and>
      fi_author fi = Some a \<and> a \<noteq> [] \<and>
      md_authors md = Some authors \<and> (\<exists>au \<in> set authors. author_name au = Some a) \<and>
      \<not> (fi_series fi \<noteq> None \<and> md_series md \<noteq> None)"
  then obtain au where au: "au \<in> set authors" "author_name au = Some a" by blast
  have ht: "has_title fi md" using h by (simp add: has_title_def falsy_def)
  have ha: "has_author fi md" using h au by (auto simp: has_author_def falsy_def)
  have hs: "\<not> has_series fi md" using h by (simp add: has_series_def)
  have t1: "calculateStringMatchScore (fi_title fi) (md_title md) = 1"
    using h stringScore_same by simp
  have "calculateStringMatchScore (fi_author fi) (author_name au) = 1"
    using h au stringScore_same by simp
  then have a1: "bestAuthorMatch (fi_author fi) (the (md_authors md)) = 1"
    using bestAuthorMatch_one [OF au(1)] h by simp
  show "calculateMatchScore fileInfo metadata = 1"
    using h ht ha hs t1 a1 by (simp add: calculateMatchScore_def weighted_score_def maxScore_def)
qed

theorem calculateMatchScore_range_and_identical_witness:
  "calculateMatchScore
     (Some \<lparr>fi_title = Some ''Dune'', fi_author = Some ''Frank Herbert'', fi_series = None\<rparr>)
     (Some \<lparr>md_title = Some ''Dune'',
            md_authors = Some [\<lparr>author_name = Some ''Brian Herbert''\<rparr>, \<lparr>author_name = Some ''Frank Herbert''\<rparr>],
            md_series = Some \<lparr>series_name = Some ''Dune Saga'', series_position = Some (PosNumber 1)\<rparr>\<rparr>) = 1"
  using calculateMatchScore_range_and_identical
    [of "Some \<lparr>fi_title = Some ''Dune'', fi_author = Some ''Frank Herbert'', fi_series = None\<rparr>"
        "Some \<lparr>md_title = Some ''Dune'',
            md_authors = Some [\<lparr>author_name = Some ''Brian Herbert''\<rparr>, \<lparr>author_name = Some ''Frank Herbert''\<rparr>],
            md_series = Some \<lparr>series_name = Some ''Dune Saga'', series_position = Some (PosNumber 1)\<rparr>\<rparr>"]
  by simp

text \<open>
  Claim C10. \<open>rankMetadataResults\<close> returns the empty sequence when the file information is
  \<open>null\<close> or absent, or the results are \<open>null\<close> or not an array. On valid inputs
  every returned element carries as \<open>_matchScore\<close> the value of \<open>calculateMatchScore\<close> for
  that element, the returned elements are the given results, and \<open>calculateMatchScore\<close>
  returns 0 when either argument is \<open>null\<close> or absent.
\<close>

theorem rankMetadataResults_degenerate_and_scores:
  "rankMetadataResults None results = [] \<and>
   rankMetadataResults fileInfo ResultsAbsent = [] \<and>
   rankMetadataResults fileInfo ResultsNotArray = [] \<and>
   (\<forall>r \<in> set (rankMetadataResults (Some fi) (ResultsArray rs)).
      sr_matchScore r = calculateMatchScore (Some fi) (sr_result r)) \<and>
   mset (map sr_result (rankMetadataResults (Some fi) (ResultsArray rs))) = mset rs \<and>
   calculateMatchScore None metadata = 0 \<and>
   calculateMatchScore fileInfo None = 0"
proof -
  let ?scored = "map (\<lambda>result. \<lparr>sr_result = result, sr_matchScore = calculateMatchScore (Some fi) result\<rparr>) rs"
  have "mset (map sr_result (sort_key (\<lambda>r. - sr_matchScore r) ?scored)) = mset (map sr_result ?scored)"
    by (simp only: mset_map mset_sort)
  also have "map sr_result ?scored = rs"
    by (induction rs) auto
  finally have "mset (map sr_result (rankMetadataResults (Some fi) (ResultsArray rs))) = mset rs"
    by (simp add: rankMetadataResults_def)
  moreover have "\<forall>r \<in> set (rankMetadataResults (Some fi) (ResultsArray rs)).
      sr_matchScore r = calculateMatchScore (Some fi) (sr_result r)"
    by (auto simp: rankMetadataResults_def)
  moreover have "rankMetadataResults None results = []"
    by (simp add: rankMetadataResults_def)
  moreover have "rankMetadataResults fileInfo ResultsAbsent = []" "rankMetadataResults fileInfo ResultsNotArray = []"
    by (simp_all add: rankMetadataResults_def split: option.splits)
  moreover have "calculateMatchScore None metadata = 0" "calculateMatchScore fileInfo None = 0"
    by (simp_all add: calculateMatchScore_def split: option.splits)
  ultimately show ?thesis by simp
qed

theorem rankMetadataResults_degenerate_and_scores_witness:
  "rankMetadataResults (Some \<lparr>fi_title = Some ''Dune'', fi_author = None, fi_series = None\<rparr>) (ResultsArray [None, Some \<lparr>md_title = Some ''Dune'', md_authors = None, md_series = None\<rparr>])
    = [\<lparr>sr_result = Some \<lparr>md_title = Some ''Dune'', md_authors = None, md_series = None\<rparr>, sr_matchScore = 1\<rparr>,
       \<lparr>sr_result = None, sr_matchScore = 0\<rparr>] \<and>
   calculateMatchScore (Some \<lparr>fi_title = Some ''Dune'', fi_author = None, fi_series = None\<rparr>) (Some \<lparr>md_title = Some ''Dune'', md_authors = None, md_series = None\<rparr>) = 1 \<and>
   calculateMatchScore (Some \<lparr>fi_title = Some ''Dune'', fi_author = None, fi_series = None\<rparr>) None = 0"
proof -
  have e: "rankMetadataResults (Some \<lparr>fi_title = Some ''Dune'', fi_author = None, fi_series = None\<rparr>) (ResultsArray [None, Some \<lparr>md_title = Some ''Dune'', md_authors = None, md_series = None\<rparr>])
    = [\<lparr>sr_result = Some \<lparr>md_title = Some ''Dune'', md_authors = None, md_series = None\<rparr>, sr_matchScore = 1\<rparr>,
       \<lparr>sr_result = None, sr_matchScore = 0\<rparr>]"
    by code_simp
  show ?thesis
    using rankMetadataResults_degenerate_and_scores
      [of ResultsAbsent None "\<lparr>fi_title = Some ''Dune'', fi_author = None, fi_series = None\<rparr>"
          "[None, Some \<lparr>md_title = Some ''Dune'', md_authors = None, md_series = None\<rparr>]" None] e
    by simp
qed

subsection \<open>The blend of word overlap and positional overlap\<close>

lemma starts_with_prefix: "starts_with s p = prefix p s"
  by (induction s p rule: starts_with.induct) auto

lemma str_includes_sublist: "str_includes a b = sublist b a"
  by (induction a) (auto simp: starts_with_prefix sublist_Cons_right)

lemma positional_set_Cons:
  "{i. i < min (Suc m) (Suc n) \<and> (a # as) ! i = (b # bs) ! i} =
     (if a = b then {0} else {}) \<union> Suc ` {i. i < min m n \<and> as ! i = bs ! i}"
proof -
  have "\<And>i. i < min (Suc m) (Suc n) \<and> (a # as) ! i = (b # bs) ! i \<longleftrightarrow>
          (i = 0 \<and> a = b) \<or> (\<exists>j. i = Suc j \<and> j < min m n \<and> as ! j = bs ! j)"
    by (case_tac i) auto
  then show ?thesis by (auto simp: image_iff)
qed

lemma sameCharCount_positional: "sameCharCount a b = spec_positionalOverlap a b"
proof (induction a b rule: sameCharCount.induct)
  case (1 a as b bs)
  have fin: "finite {i. i < min (length as) (length bs) \<and> as ! i = bs ! i}" by simp
  have "card ((if a = b then {0} else {}) \<union> Suc ` {i. i < min (length as) (length bs) \<and> as ! i = bs ! i})
        = (if a = b then 1 else 0) + card {i. i < min (length as) (length bs) \<and> as ! i = bs ! i}"
    using fin by (auto simp: card_insert_if card_image)
  then show ?case
    using 1 positional_set_Cons [of "length as" "length bs" a as b bs]
    by (simp add: spec_positionalOverlap_def)
qed (auto simp: spec_positionalOverlap_def)

lemma matchingWords_overlap: "matchingWords ws1 ws2 = spec_wordOverlap ws1 ws2"
proof -
  have "(\<lambda>word1. \<not> length word1 < 3 \<and> word_matches word1 ws2) =
        (\<lambda>w1. 3 \<le> length w1 \<and> (\<exists>w2 \<in> set ws2. 3 \<le> length w2 \<and> (w1 = w2 \<or> sublist w2 w1 \<or> sublist w1 w2)))"
    by (auto simp: word_matches_def list_ex_iff str_includes_sublist fun_eq_iff not_less)
  then show ?thesis by (simp add: matchingWords_def spec_wordOverlap_def)
qed

lemma blendScore_spec: "blendScore n1 n2 = spec_blend n1 n2"
  by (simp add: blendScore_def spec_blend_def Let_def matchingWords_overlap sameCharCount_positional)

text \<open>
  Claim C4 (amended). For every pair of non-empty strings whose normalized forms are neither
  equal nor contained in one another, \<open>calculateStringMatchScore\<close> returns
  0.7 times the word-overlap ratio plus 0.3 times the positional ratio. The word-overlap count
  is the number of words of the first string of length at least 3 that are equal to, contain or
  are contained in a word of length at least 3 of the second string; it is at most the number
  of words of the first string (there is no cap at the smaller word count) and is divided by
  the larger word count. The positional ratio is the number of equal characters at equal
  indices up to the shorter length, divided by the longer length.
\<close>

theorem calculateStringMatchScore_blend:
  assumes "s1 \<noteq> []" and "s2 \<noteq> []"
    and "normalizeString s1 \<noteq> normalizeString s2"
    and "\<not> sublist (normalizeString s2) (normalizeString s1)"
    and "\<not> sublist (normalizeString s1) (normalizeString s2)"
  shows "calculateStringMatchScore (Some s1) (Some s2) = spec_blend (normalizeString s1) (normalizeString s2) \<and>
         spec_wordOverlap (split_spaces (normalizeString s1)) (split_spaces (normalizeString s2))
           \<le> length (split_spaces (normalizeString s1))"
  using assms matchingWords_le [of "split_spaces (normalizeString s1)" "split_spaces (normalizeString s2)"]
  by (simp add: calculateStringMatchScore_def falsy_def Let_def str_includes_sublist blendScore_spec
        matchingWords_overlap)

lemma norm_martian: "normalizeString ''The Martian'' = ''the martian''"
  "normalizeString ''Martian Chronicles'' = ''martian chronicles''"
  by code_simp+

theorem calculateStringMatchScore_blend_witness:
  "calculateStringMatchScore (Some ''The Martian'') (Some ''Martian Chronicles'') =
     spec_blend ''the martian'' ''martian chronicles'' \<and>
   calculateStringMatchScore (Some ''The Martian'') (Some ''Martian Chronicles'') = 11 / 30"
proof -
  have a: "\<not> sublist ''martian chronicles'' ''the martian''"
    unfolding str_includes_sublist [symmetric] by code_simp
  have b: "\<not> sublist ''the martian'' ''martian chronicles''"
    unfolding str_includes_sublist [symmetric] by code_simp
  have c: "calculateStringMatchScore (Some ''The Martian'') (Some ''Martian Chronicles'') = 11 / 30"
    by code_simp
  show ?thesis
    using calculateStringMatchScore_blend [of "''The Martian''" "''Martian Chronicles''"] a b c
    by (simp add: norm_martian)
qed

lemma norm_abc: "normalizeString ''abc abc abc'' = ''abc abc abc''"
  "normalizeString ''abc xyz'' = ''abc xyz''"
  "split_spaces ''abc abc abc'' = [''abc'', ''abc'', ''abc'']"
  "split_spaces ''abc xyz'' = [''abc'', ''xyz'']"
  by code_simp+

text \<open>
  Claim C4 as stated fails: for \<open>abc abc abc\<close> against \<open>abc xyz\<close> the count is 3,
  above the smaller word count 2, and the score is 89/110, not the capped 19/33.
\<close>

theorem calculateStringMatchScore_cap_counterexample:
  "''abc abc abc'' \<noteq> [] \<and> ''abc xyz'' \<noteq> [] \<and>
   normalizeString ''abc abc abc'' \<noteq> normalizeString ''abc xyz'' \<and>
   \<not> sublist (normalizeString ''abc xyz'') (normalizeString ''abc abc abc'') \<and>
   \<not> sublist (normalizeString ''abc abc abc'') (normalizeString ''abc xyz'') \<and>
   calculateStringMatchScore (Some ''abc abc abc'') (Some ''abc xyz'') = 89 / 110 \<and>
   spec_blend_capped (normalizeString ''abc abc abc'') (normalizeString ''abc xyz'') = 19 / 33 \<and>
   \<not> spec_wordOverlap (split_spaces (normalizeString ''abc abc abc'')) (split_spaces (normalizeString ''abc xyz''))
       \<le> min (length (split_spaces (normalizeString ''abc abc abc''))) (length (split_spaces (normalizeString ''abc xyz'')))"
proof -
  have a: "\<not> sublist ''abc xyz'' ''abc abc abc''"
    unfolding str_includes_sublist [symmetric] by code_simp
  have b: "\<not> sublist ''abc abc abc'' ''abc xyz''"
    unfolding str_includes_sublist [symmetric] by code_simp
  have c: "calculateStringMatchScore (Some ''abc abc abc'') (Some ''abc xyz'') = 89 / 110"
    by code_simp
  have w: "spec_wordOverlap [''abc'', ''abc'', ''abc''] [''abc'', ''xyz''] = 3"
    unfolding matchingWords_overlap [symmetric] by code_simp
  have p: "spec_positionalOverlap ''abc abc abc'' ''abc xyz'' = 4"
    unfolding sameCharCount_positional [symmetric] by code_simp
  show ?thesis
    using a b c by (simp add: norm_abc spec_blend_capped_def w p)
qed

subsection \<open>Adding a matching series\<close>

lemma stringScore_equal_norm:
  assumes "n1 \<noteq> []" "n2 \<noteq> []" "normalizeString n1 = normalizeString n2"
  shows "calculateStringMatchScore (Some n1) (Some n2) = 1"
  using assms by (simp add: calculateStringMatchScore_def falsy_def)

lemma seriesPositionScore_match:
  assumes "position_truthy (Some p1)" "position_truthy (Some p2)"
    and "position_toString p1 = position_toString p2 \<or>
         (\<exists>k. parseInt10 (position_toString p1) = Some k \<and> parseInt10 (position_toString p2) = Some k)"
  shows "seriesPositionScore (Some p1) (Some p2) = 1"
  using assms by (auto simp: seriesPositionScore_def)

lemma series_update_flags:
  "has_title (fi\<lparr>fi_series := s\<rparr>) (md\<lparr>md_series := t\<rparr>) = has_title fi md"
  "has_author (fi\<lparr>fi_series := s\<rparr>) (md\<lparr>md_series := t\<rparr>) = has_author fi md"
  "has_series (fi\<lparr>fi_series := s\<rparr>) (md\<lparr>md_series := t\<rparr>) = (s \<noteq> None \<and> t \<noteq> None)"
  by (simp_all add: has_title_def has_author_def has_series_def)

text \<open>
  Claim C9 (amended). For every identity and candidate that both carry a title and an author,
  extending both sides with a series field whose names are non-empty and equal after
  normalization and whose positions are both present and truthy (a non-empty string or a
  number other than 0) and equal as strings or as parsed integers never yields a
  \<open>calculateMatchScore\<close> lower than the score of the same pair without series fields.
\<close>

theorem series_match_never_lowers:
  assumes "has_title fi md" and "has_author fi md"
    and "series_name fs = Some n1" and "series_name ms = Some n2"
    and "n1 \<noteq> []" and "n2 \<noteq> []" and "normalizeString n1 = normalizeString n2"
    and "series_position fs = Some p1" and "series_position ms = Some p2"
    and "position_truthy (Some p1)" and "position_truthy (Some p2)"
    and "position_toString p1 = position_toString p2 \<or>
         (\<exists>k. parseInt10 (position_toString p1) = Some k \<and> parseInt10 (position_toString p2) = Some k)"
  shows "calculateMatchScore (Some (fi\<lparr>fi_series := None\<rparr>)) (Some (md\<lparr>md_series := None\<rparr>))
         \<le> calculateMatchScore (Some (fi\<lparr>fi_series := Some fs\<rparr>)) (Some (md\<lparr>md_series := Some ms\<rparr>))"
proof -
  let ?t = "calculateStringMatchScore (fi_title fi) (md_title md)"
  let ?a = "bestAuthorMatch (fi_author fi) (the (md_authors md))"
  have t: "0 \<le> ?t \<and> ?t \<le> 1" by (rule stringScore_bounds)
  have a: "0 \<le> ?a \<and> ?a \<le> 1" by (rule bestAuthorMatch_bounds)
  have c: "combinedSeriesScore fs ms = 1"
    using assms stringScore_equal_norm [of n1 n2] seriesPositionScore_match [of p1 p2]
    by (simp add: combinedSeriesScore_def)
  have score_without: "calculateMatchScore (Some (fi\<lparr>fi_series := None\<rparr>)) (Some (md\<lparr>md_series := None\<rparr>))
      = (?t * 60 + ?a * 30) / 90"
    using assms(1,2) by (simp add: calculateMatchScore_def maxScore_def weighted_score_def series_update_flags)
  have score_with: "calculateMatchScore (Some (fi\<lparr>fi_series := Some fs\<rparr>)) (Some (md\<lparr>md_series := Some ms\<rparr>))
      = (?t * 60 + ?a * 30 + 10) / 100"
    using assms(1,2) c by (simp add: calculateMatchScore_def maxScore_def weighted_score_def series_update_flags)
  show ?thesis unfolding score_without score_with using t a by simp
qed


theorem series_match_never_lowers_witness:
  "calculateMatchScore
     (Some \<lparr>fi_title = Some ''Dune'', fi_author = Some ''Frank Herbert'', fi_series = None\<rparr>)
     (Some \<lparr>md_title = Some ''Dune Messiah'', md_authors = Some [\<lparr>author_name = Some ''Frank Herbert''\<rparr>],
            md_series = None\<rparr>)
   \<le> calculateMatchScore
     (Some \<lparr>fi_title = Some ''Dune'', fi_author = Some ''Frank Herbert'',
            fi_series = Some \<lparr>series_name = Some ''Dune Saga'', series_position = Some (PosString ''02'')\<rparr>\<rparr>)
     (Some \<lparr>md_title = Some ''Dune Messiah'', md_authors = Some [\<lparr>author_name = Some ''Frank Herbert''\<rparr>],
            md_series = Some \<lparr>series_name = Some ''Dune  saga!'', series_position = Some (PosNumber 2)\<rparr>\<rparr>)"
proof -
  have n: "normalizeString ''Dune Saga'' = normalizeString ''Dune  saga!''" by code_simp
  have p: "parseInt10 (position_toString (PosString ''02'')) = Some 2 \<and>
           parseInt10 (position_toString (PosNumber 2)) = Some 2" by code_simp
  show ?thesis
    using series_match_never_lowers
      [of "\<lparr>fi_title = Some ''Dune'', fi_author = Some ''Frank Herbert'', fi_series = None\<rparr>"
          "\<lparr>md_title = Some ''Dune Messiah'', md_authors = Some [\<lparr>author_name = Some ''Frank Herbert''\<rparr>],
            md_series = None\<rparr>"
          "\<lparr>series_name = Some ''Dune Saga'', series_position = Some (PosString ''02'')\<rparr>" "''Dune Saga''"
          "\<lparr>series_name = Some ''Dune  saga!'', series_position = Some (PosNumber 2)\<rparr>" "''Dune  saga!''"
          "PosString ''02''" "PosNumber 2"] n p
    by (simp add: has_title_def has_author_def falsy_def position_truthy_def)
qed

text \<open>
  Claim C9 as stated fails where the guards of the source treat a value as missing: with the
  series position 0 on both sides the position sub-score is 0 and the score drops from 1 to
  97/100; with the empty series name on both sides the name sub-score is 0 and the score
  drops from 1 to 93/100.
\<close>

theorem series_match_counterexample:
  "position_toString (PosNumber 0) = position_toString (PosNumber 0) \<and>
   calculateMatchScore
     (Some \<lparr>fi_title = Some ''Dune'', fi_author = Some ''Frank Herbert'',
            fi_series = Some \<lparr>series_name = Some ''Dune Saga'', series_position = Some (PosNumber 0)\<rparr>\<rparr>)
     (Some \<lparr>md_title = Some ''Dune'', md_authors = Some [\<lparr>author_name = Some ''Frank Herbert''\<rparr>],
            md_series = Some \<lparr>series_name = Some ''Dune Saga'', series_position = Some (PosNumber 0)\<rparr>\<rparr>)
     = 97 / 100 \<and>
   normalizeString [] = normalizeString [] \<and>
   calculateMatchScore
     (Some \<lparr>fi_title = Some ''Dune'', fi_author = Some ''Frank Herbert'',
            fi_series = Some \<lparr>series_name = Some [], series_position = Some (PosNumber 1)\<rparr>\<rparr>)
     (Some \<lparr>md_title = Some ''Dune'', md_authors = Some [\<lparr>author_name = Some ''Frank Herbert''\<rparr>],
            md_series = Some \<lparr>series_name = Some [], series_position = Some (PosNumber 1)\<rparr>\<rparr>)
     = 93 / 100 \<and>
   calculateMatchScore
     (Some \<lparr>fi_title = Some ''Dune'', fi_author = Some ''Frank Herbert'', fi_series = None\<rparr>)
     (Some \<lparr>md_title = Some ''Dune'', md_authors = Some [\<lparr>author_name = Some ''Frank Herbert''\<rparr>],
            md_series = None\<rparr>)
     = 1"
proof -
  have a: "calculateMatchScore
     (Some \<lparr>fi_title = Some ''Dune'', fi_author = Some ''Frank Herbert'',
            fi_series = Some \<lparr>series_name = Some ''Dune Saga'', series_position = Some (PosNumber 0)\<rparr>\<rparr>)
     (Some \<lparr>md_title = Some ''Dune'', md_authors = Some [\<lparr>author_name = Some ''Frank Herbert''\<rparr>],
            md_series = Some \<lparr>series_name = Some ''Dune Saga'', series_position = Some (PosNumber 0)\<rparr>\<rparr>)
     = 97 / 100"
    by code_simp
  have b: "calculateMatchScore
     (Some \<lparr>fi_title = Some ''Dune'', fi_author = Some ''Frank Herbert'',
            fi_series = Some \<lparr>series_name = Some [], series_position = Some (PosNumber 1)\<rparr>\<rparr>)
     (Some \<lparr>md_title = Some ''Dune'', md_authors = Some [\<lparr>author_name = Some ''Frank Herbert''\<rparr>],
            md_series = Some \<lparr>series_name = Some [], series_position = Some (PosNumber 1)\<rparr>\<rparr>)
     = 93 / 100"
    by code_simp
  have c: "calculateMatchScore
     (Some \<lparr>fi_title = Some ''Dune'', fi_author = Some ''Frank Herbert'', fi_series = None\<rparr>)
     (Some \<lparr>md_title = Some ''Dune'', md_authors = Some [\<lparr>author_name = Some ''Frank Herbert''\<rparr>],
            md_series = None\<rparr>)
     = 1"
    by code_simp
  show ?thesis using a b c by simp
qed

section \<open>Properties of grouping\<close>

lemma mset_insert_by: "mset (insert_by le x ys) = add_mset x (mset ys)"
  by (induction ys) auto

lemma mset_sort_by: "mset (sort_by le xs) = mset xs"
  by (induction xs) (auto simp: sort_by_def mset_insert_by)

lemma add_file_keys:
  "map bg_key (add_file books f) =
     (if identifyBookKey f \<in> set (map bg_key books) then map bg_key books
      else map bg_key books @ [identifyBookKey f])"
proof -
  have "map bg_key (map (\<lambda>book. if bg_key book = k
            then book\<lparr>bg_files := bg_files book @ [f], bg_totalSize := bg_totalSize book + fe_size f\<rparr>
            else book) books) = map bg_key books" for k
    by (induction books) auto
  then show ?thesis
    by (auto simp: add_file_def Let_def list_ex_iff new_book_def intro: rev_image_eqI)
qed

lemma add_file_distinct:
  "distinct (map bg_key books) \<Longrightarrow> distinct (map bg_key (add_file books f))"
  by (simp add: add_file_keys)

lemma update_book_mset:
  assumes "distinct (map bg_key books)" "k \<in> set (map bg_key books)"
  shows "mset (concat (map bg_files (map (\<lambda>book. if bg_key book = k
            then book\<lparr>bg_files := bg_files book @ [f], bg_totalSize := bg_totalSize book + fe_size f\<rparr>
            else book) books))) = add_mset f (mset (concat (map bg_files books)))"
  using assms
proof (induction books)
  case Nil then show ?case by simp
next
  case (Cons b bs)
  show ?case
  proof (cases "bg_key b = k")
    case True
    then have "k \<notin> set (map bg_key bs)" using Cons.prems(1) by auto
    then have "map (\<lambda>book. if bg_key book = k
            then book\<lparr>bg_files := bg_files book @ [f], bg_totalSize := bg_totalSize book + fe_size f\<rparr>
            else book) bs = bs"
      by (induction bs) auto
    then show ?thesis using True by simp
  next
    case False
    then have "k \<in> set (map bg_key bs)" using Cons.prems(2) by auto
    moreover have "distinct (map bg_key bs)" using Cons.prems(1) by simp
    ultimately show ?thesis using Cons.IH False by simp
  qed
qed

lemma add_file_mset:
  assumes "distinct (map bg_key books)"
  shows "mset (concat (map bg_files (add_file books f))) = add_mset f (mset (concat (map bg_files books)))"
proof (cases "identifyBookKey f \<in> set (map bg_key books)")
  case True
  then have "list_ex (\<lambda>b. bg_key b = identifyBookKey f) books" by (auto simp: list_ex_iff)
  then show ?thesis
    using update_book_mset [OF assms True, of f] by (simp add: add_file_def Let_def)
next
  case False
  then have "\<not> list_ex (\<lambda>b. bg_key b = identifyBookKey f) books"
    by (auto simp: list_ex_iff intro: rev_image_eqI)
  then show ?thesis by (simp add: add_file_def Let_def new_book_def)
qed

lemma add_file_book_ok:
  assumes "\<forall>b \<in> set books. bg_files b \<noteq> [] \<and> (\<forall>g \<in> set (bg_files b). identifyBookKey g = bg_key b) \<and>
             bg_totalSize b = sum_list (map fe_size (bg_files b))"
  shows "\<forall>b \<in> set (add_file books f). bg_files b \<noteq> [] \<and> (\<forall>g \<in> set (bg_files b). identifyBookKey g = bg_key b) \<and>
             bg_totalSize b = sum_list (map fe_size (bg_files b))"
  using assms by (auto simp: add_file_def Let_def new_book_def)

lemma foldl_add_file:
  assumes "distinct (map bg_key books)"
    and "\<forall>b \<in> set books. bg_files b \<noteq> [] \<and> (\<forall>g \<in> set (bg_files b). identifyBookKey g = bg_key b) \<and>
             bg_totalSize b = sum_list (map fe_size (bg_files b))"
  shows "distinct (map bg_key (foldl add_file books fs)) \<and>
         mset (concat (map bg_files (foldl add_file books fs))) = mset (concat (map bg_files books)) + mset fs \<and>
         (\<forall>b \<in> set (foldl add_file books fs). bg_files b \<noteq> [] \<and>
             (\<forall>g \<in> set (bg_files b). identifyBookKey g = bg_key b) \<and>
             bg_totalSize b = sum_list (map fe_size (bg_files b)))"
  using assms
proof (induction fs arbitrary: books)
  case Nil then show ?case by simp
next
  case (Cons f fs)
  have d: "distinct (map bg_key (add_file books f))" using Cons.prems(1) by (rule add_file_distinct)
  have ok: "\<forall>b \<in> set (add_file books f). bg_files b \<noteq> [] \<and> (\<forall>g \<in> set (bg_files b). identifyBookKey g = bg_key b) \<and>
             bg_totalSize b = sum_list (map fe_size (bg_files b))"
    using Cons.prems(2) by (rule add_file_book_ok)
  from Cons.IH [OF d ok] add_file_mset [OF Cons.prems(1), of f]
  show ?case by simp
qed

lemma sum_list_sort_key:
  fixes g :: "'a \<Rightarrow> nat"
  shows "sum_list (map g (sort_key k xs)) = sum_list (map g xs)"
proof -
  have "mset (map g (sort_key k xs)) = mset (map g xs)" by (simp only: mset_map mset_sort)
  then have "sum_mset (mset (map g (sort_key k xs))) = sum_mset (mset (map g xs))" by (rule arg_cong)
  then show ?thesis by (simp only: sum_mset_sum_list)
qed

lemma sort_key_Nil_iff: "sort_key k xs = [] \<longleftrightarrow> xs = []"
  by (metis length_0_conv length_sort)

lemma sorted_books_files:
  "mset (concat (map bg_files (map (\<lambda>book. book\<lparr>bg_files := sort_key k (bg_files book)\<rparr>) books)))
     = mset (concat (map bg_files books))"
  by (induction books) auto

text \<open>
  Claim C3. For every input list of files (and every collation order), the groups returned by
  \<open>groupFilesByBooks\<close> partition the input: the files of all groups together are the input
  files, each as often as it occurs in the input (so each exactly once when the input has no
  file twice); the keys of the groups are pairwise distinct and every file lies in the group
  that has the file's key, so no file occurs in two groups;
  no group's files sequence is empty; and each group's \<open>totalSize\<close> is the sum of the sizes
  of its files.
\<close>

theorem groupFilesByBooks_partition:
  "mset (concat (map bg_files (groupFilesByBooks le files))) = mset files \<and>
   (distinct files \<longrightarrow> distinct (concat (map bg_files (groupFilesByBooks le files)))) \<and>
   distinct (map bg_key (groupFilesByBooks le files)) \<and>
   (\<forall>b \<in> set (groupFilesByBooks le files).
      bg_files b \<noteq> [] \<and>
      (\<forall>f \<in> set (bg_files b). identifyBookKey f = bg_key b) \<and>
      bg_totalSize b = sum_list (map fe_size (bg_files b)))"
proof -
  let ?sorted = "sort_by (\<lambda>a b. le (fe_name a) (fe_name b)) files"
  let ?books = "foldl add_file [] ?sorted"
  have inv: "distinct (map bg_key ?books) \<and>
         mset (concat (map bg_files ?books)) = mset (concat (map bg_files [])) + mset ?sorted \<and>
         (\<forall>b \<in> set ?books. bg_files b \<noteq> [] \<and>
             (\<forall>g \<in> set (bg_files b). identifyBookKey g = bg_key b) \<and>
             bg_totalSize b = sum_list (map fe_size (bg_files b)))"
    using foldl_add_file [of "[]" ?sorted] by simp
  have g: "groupFilesByBooks le files = map (\<lambda>book. book\<lparr>bg_files := sort_key track_order (bg_files book)\<rparr>) ?books"
    by (simp add: groupFilesByBooks_def Let_def)
  have 1: "mset (concat (map bg_files (groupFilesByBooks le files))) = mset files"
    unfolding g sorted_books_files using inv by (simp add: mset_sort_by)
  have 2: "distinct (map bg_key (groupFilesByBooks le files))"
    unfolding g using inv by (simp add: comp_def)
  have 3: "\<forall>b \<in> set (groupFilesByBooks le files).
      bg_files b \<noteq> [] \<and>
      (\<forall>f \<in> set (bg_files b). identifyBookKey f = bg_key b) \<and>
      bg_totalSize b = sum_list (map fe_size (bg_files b))"
    unfolding g using inv by (auto simp: sum_list_sort_key sort_key_Nil_iff)
  have 4: "distinct files \<longrightarrow> distinct (concat (map bg_files (groupFilesByBooks le files)))"
    using 1 by (metis mset_eq_imp_distinct_iff)
  show ?thesis using 1 2 3 4 by blast
qed

theorem groupFilesByBooks_partition_witness:
  "groupFilesByBooks (\<lambda>a b. length a \<le> length b)
     [\<lparr>fe_path = ''/lib/Saga/Saga part 2.mp3'', fe_name = ''Saga part 2.mp3'', fe_directory = ''/lib/Saga'',
        fe_extension = ''.mp3'', fe_size = 20\<rparr>,
      \<lparr>fe_path = ''/lib/Solo.m4b'', fe_name = ''Solo.m4b'', fe_directory = ''/lib'',
        fe_extension = ''.m4b'', fe_size = 7\<rparr>,
      \<lparr>fe_path = ''/lib/Saga/Saga part 1.mp3'', fe_name = ''Saga part 1.mp3'', fe_directory = ''/lib/Saga'',
        fe_extension = ''.mp3'', fe_size = 10\<rparr>]
   = [\<lparr>bg_key = ''lib_solo'', bg_name = ''Solo'', bg_directory = ''/lib'',
        bg_files = [\<lparr>fe_path = ''/lib/Solo.m4b'', fe_name = ''Solo.m4b'', fe_directory = ''/lib'',
                      fe_extension = ''.m4b'', fe_size = 7\<rparr>],
        bg_totalSize = 7\<rparr>,
      \<lparr>bg_key = ''saga_saga'', bg_name = ''Saga'', bg_directory = ''/lib/Saga'',
        bg_files = [\<lparr>fe_path = ''/lib/Saga/Saga part 1.mp3'', fe_name = ''Saga part 1.mp3'',
                      fe_directory = ''/lib/Saga'', fe_extension = ''.mp3'', fe_size = 10\<rparr>,
                    \<lparr>fe_path = ''/lib/Saga/Saga part 2.mp3'', fe_name = ''Saga part 2.mp3'',
                      fe_directory = ''/lib/Saga'', fe_extension = ''.mp3'', fe_size = 20\<rparr>],
        bg_totalSize = 30\<rparr>] \<and>
   mset (concat (map bg_files (groupFilesByBooks (\<lambda>a b. length a \<le> length b)
     [\<lparr>fe_path = ''/lib/Saga/Saga part 2.mp3'', fe_name = ''Saga part 2.mp3'', fe_directory = ''/lib/Saga'',
        fe_extension = ''.mp3'', fe_size = 20\<rparr>,
      \<lparr>fe_path = ''/lib/Solo.m4b'', fe_name = ''Solo.m4b'', fe_directory = ''/lib'',
        fe_extension = ''.m4b'', fe_size = 7\<rparr>,
      \<lparr>fe_path = ''/lib/Saga/Saga part 1.mp3'', fe_name = ''Saga part 1.mp3'', fe_directory = ''/lib/Saga'',
        fe_extension = ''.mp3'', fe_size = 10\<rparr>])))
   = mset [\<lparr>fe_path = ''/lib/Saga/Saga part 2.mp3'', fe_name = ''Saga part 2.mp3'', fe_directory = ''/lib/Saga'',
        fe_extension = ''.mp3'', fe_size = 20\<rparr>,
      \<lparr>fe_path = ''/lib/Solo.m4b'', fe_name = ''Solo.m4b'', fe_directory = ''/lib'',
        fe_extension = ''.m4b'', fe_size = 7\<rparr>,
      \<lparr>fe_path = ''/lib/Saga/Saga part 1.mp3'', fe_name = ''Saga part 1.mp3'', fe_directory = ''/lib/Saga'',
        fe_extension = ''.mp3'', fe_size = 10\<rparr>] \<and>
   distinct (concat (map bg_files (groupFilesByBooks (\<lambda>a b. length a \<le> length b)
     [\<lparr>fe_path = ''/lib/Saga/Saga part 2.mp3'', fe_name = ''Saga part 2.mp3'', fe_directory = ''/lib/Saga'',
        fe_extension = ''.mp3'', fe_size = 20\<rparr>,
      \<lparr>fe_path = ''/lib/Solo.m4b'', fe_name = ''Solo.m4b'', fe_directory = ''/lib'',
        fe_extension = ''.m4b'', fe_size = 7\<rparr>,
      \<lparr>fe_path = ''/lib/Saga/Saga part 1.mp3'', fe_name = ''Saga part 1.mp3'', fe_directory = ''/lib/Saga'',
        fe_extension = ''.mp3'', fe_size = 10\<rparr>]))) \<and>
   distinct (map bg_key (groupFilesByBooks (\<lambda>a b. length a \<le> length b)
     [\<lparr>fe_path = ''/lib/Saga/Saga part 2.mp3'', fe_name = ''Saga part 2.mp3'', fe_directory = ''/lib/Saga'',
        fe_extension = ''.mp3'', fe_size = 20\<rparr>,
      \<lparr>fe_path = ''/lib/Solo.m4b'', fe_name = ''Solo.m4b'', fe_directory = ''/lib'',
        fe_extension = ''.m4b'', fe_size = 7\<rparr>,
      \<lparr>fe_path = ''/lib/Saga/Saga part 1.mp3'', fe_name = ''Saga part 1.mp3'', fe_directory = ''/lib/Saga'',
        fe_extension = ''.mp3'', fe_size = 10\<rparr>])) \<and>
   bg_totalSize (last (groupFilesByBooks (\<lambda>a b. length a \<le> length b)
     [\<lparr>fe_path = ''/lib/Saga/Saga part 2.mp3'', fe_name = ''Saga part 2.mp3'', fe_directory = ''/lib/Saga'',
        fe_extension = ''.mp3'', fe_size = 20\<rparr>,
      \<lparr>fe_path = ''/lib/Solo.m4b'', fe_name = ''Solo.m4b'', fe_directory = ''/lib'',
        fe_extension = ''.m4b'', fe_size = 7\<rparr>,
      \<lparr>fe_path = ''/lib/Saga/Saga part 1.mp3'', fe_name = ''Saga part 1.mp3'', fe_directory = ''/lib/Saga'',
        fe_extension = ''.mp3'', fe_size = 10\<rparr>]))
   = sum_list (map fe_size (bg_files (last (groupFilesByBooks (\<lambda>a b. length a \<le> length b)
     [\<lparr>fe_path = ''/lib/Saga/Saga part 2.mp3'', fe_name = ''Saga part 2.mp3'', fe_directory = ''/lib/Saga'',
        fe_extension = ''.mp3'', fe_size = 20\<rparr>,
      \<lparr>fe_path = ''/lib/Solo.m4b'', fe_name = ''Solo.m4b'', fe_directory = ''/lib'',
        fe_extension = ''.m4b'', fe_size = 7\<rparr>,
      \<lparr>fe_path = ''/lib/Saga/Saga part 1.mp3'', fe_name = ''Saga part 1.mp3'', fe_directory = ''/lib/Saga'',
        fe_extension = ''.mp3'', fe_size = 10\<rparr>]))))"
proof -
  have e: "groupFilesByBooks (\<lambda>a b. length a \<le> length b)
     [\<lparr>fe_path = ''/lib/Saga/Saga part 2.mp3'', fe_name = ''Saga part 2.mp3'', fe_directory = ''/lib/Saga'',
        fe_extension = ''.mp3'', fe_size = 20\<rparr>,
      \<lparr>fe_path = ''/lib/Solo.m4b'', fe_name = ''Solo.m4b'', fe_directory = ''/lib'',
        fe_extension = ''.m4b'', fe_size = 7\<rparr>,
      \<lparr>fe_path = ''/lib/Saga/Saga part 1.mp3'', fe_name = ''Saga part 1.mp3'', fe_directory = ''/lib/Saga'',
        fe_extension = ''.mp3'', fe_size = 10\<rparr>]
   = [\<lparr>bg_key = ''lib_solo'', bg_name = ''Solo'', bg_directory = ''/lib'',
        bg_files = [\<lparr>fe_path = ''/lib/Solo.m4b'', fe_name = ''Solo.m4b'', fe_directory = ''/lib'',
                      fe_extension = ''.m4b'', fe_size = 7\<rparr>],
        bg_totalSize = 7\<rparr>,
      \<lparr>bg_key = ''saga_saga'', bg_name = ''Saga'', bg_directory = ''/lib/Saga'',
        bg_files = [\<lparr>fe_path = ''/lib/Saga/Saga part 1.mp3'', fe_name = ''Saga part 1.mp3'',
                      fe_directory = ''/lib/Saga'', fe_extension = ''.mp3'', fe_size = 10\<rparr>,
                    \<lparr>fe_path = ''/lib/Saga/Saga part 2.mp3'', fe_name = ''Saga part 2.mp3'',
                      fe_directory = ''/lib/Saga'', fe_extension = ''.mp3'', fe_size = 20\<rparr>],
        bg_totalSize = 30\<rparr>]"
    by code_simp
  have d: "distinct [\<lparr>fe_path = ''/lib/Saga/Saga part 2.mp3'', fe_name = ''Saga part 2.mp3'', fe_directory = ''/lib/Saga'',
        fe_extension = ''.mp3'', fe_size = 20\<rparr>,
      \<lparr>fe_path = ''/lib/Solo.m4b'', fe_name = ''Solo.m4b'', fe_directory = ''/lib'',
        fe_extension = ''.m4b'', fe_size = 7\<rparr>,
      \<lparr>fe_path = ''/lib/Saga/Saga part 1.mp3'', fe_name = ''Saga part 1.mp3'', fe_directory = ''/lib/Saga'',
        fe_extension = ''.mp3'', fe_size = 10\<rparr>]"
    by simp
  have l: "last (groupFilesByBooks (\<lambda>a b. length a \<le> length b)
     [\<lparr>fe_path = ''/lib/Saga/Saga part 2.mp3'', fe_name = ''Saga part 2.mp3'', fe_directory = ''/lib/Saga'',
        fe_extension = ''.mp3'', fe_size = 20\<rparr>,
      \<lparr>fe_path = ''/lib/Solo.m4b'', fe_name = ''Solo.m4b'', fe_directory = ''/lib'',
        fe_extension = ''.m4b'', fe_size = 7\<rparr>,
      \<lparr>fe_path = ''/lib/Saga/Saga part 1.mp3'', fe_name = ''Saga part 1.mp3'', fe_directory = ''/lib/Saga'',
        fe_extension = ''.mp3'', fe_size = 10\<rparr>])
      \<in> set (groupFilesByBooks (\<lambda>a b. length a \<le> length b)
     [\<lparr>fe_path = ''/lib/Saga/Saga part 2.mp3'', fe_name = ''Saga part 2.mp3'', fe_directory = ''/lib/Saga'',
        fe_extension = ''.mp3'', fe_size = 20\<rparr>,
      \<lparr>fe_path = ''/lib/Solo.m4b'', fe_name = ''Solo.m4b'', fe_directory = ''/lib'',
        fe_extension = ''.m4b'', fe_size = 7\<rparr>,
      \<lparr>fe_path = ''/lib/Saga/Saga part 1.mp3'', fe_name = ''Saga part 1.mp3'', fe_directory = ''/lib/Saga'',
        fe_extension = ''.mp3'', fe_size = 10\<rparr>])"
    unfolding e by simp
  show ?thesis
    using groupFilesByBooks_partition [of "\<lambda>a b. length a \<le> length b"
     "[\<lparr>fe_path = ''/lib/Saga/Saga part 2.mp3'', fe_name = ''Saga part 2.mp3'', fe_directory = ''/lib/Saga'',
        fe_extension = ''.mp3'', fe_size = 20\<rparr>,
      \<lparr>fe_path = ''/lib/Solo.m4b'', fe_name = ''Solo.m4b'', fe_directory = ''/lib'',
        fe_extension = ''.m4b'', fe_size = 7\<rparr>,
      \<lparr>fe_path = ''/lib/Saga/Saga part 1.mp3'', fe_name = ''Saga part 1.mp3'', fe_directory = ''/lib/Saga'',
        fe_extension = ''.mp3'', fe_size = 10\<rparr>]"] e d l
    by blast
qed

lemma chapter_names:
  "trim (strip_numbering (path_basename_ext ''01 - Chapter.mp3'' ''.mp3'')) = ''Chapter''"
  "trim (strip_numbering (path_basename_ext ''02 - Chapter.mp3'' ''.mp3'')) = ''Chapter''"
  "path_basename_ext ''01 - Chapter.mp3'' ''.mp3'' = ''01 - Chapter''"
  "path_basename_ext ''02 - Chapter.mp3'' ''.mp3'' = ''02 - Chapter''"
  "extractBookName ''01 - Chapter.mp3'' = ''Chapter''"
  "extractBookName ''02 - Chapter.mp3'' = ''Chapter''"
  "extractTrackNumber ''01 - Chapter.mp3'' = Some 1"
  "extractTrackNumber ''02 - Chapter.mp3'' = Some 2"
  "toLowerCase ''MyBook_Chapter'' = ''mybook_chapter''"
  by code_simp+

lemma sort_by_two: "sort_by le [a, b] = (if le a b then [a, b] else [b, a])"
  by (simp add: sort_by_def)

text \<open>
  Claim C8. For two files named \<open>01 - Chapter.mp3\<close> and \<open>02 - Chapter.mp3\<close> with the
  extension \<open>.mp3\<close>, both in a directory whose base name is \<open>MyBook\<close>,
  \<open>groupFilesByBooks\<close> returns exactly one group, whatever the order of the input and the
  collation: its key is \<open>mybook_chapter\<close>, it holds both files, ordered by their track
  numbers 1 and 2.
\<close>

theorem scenario_two_chapters:
  assumes "fe_name f1 = ''01 - Chapter.mp3''" and "fe_name f2 = ''02 - Chapter.mp3''"
    and "fe_extension f1 = ''.mp3''" and "fe_extension f2 = ''.mp3''"
    and "fe_directory f1 = d" and "fe_directory f2 = d"
    and "path_basename d = ''MyBook''"
    and "files = [f1, f2] \<or> files = [f2, f1]"
  shows "groupFilesByBooks le files =
           [\<lparr>bg_key = ''mybook_chapter'', bg_name = ''Chapter'', bg_directory = d,
             bg_files = [f1, f2], bg_totalSize = fe_size f1 + fe_size f2\<rparr>] \<and>
         map track_order [f1, f2] = [1, 2]"
proof -
  have k1: "identifyBookKey f1 = ''mybook_chapter''"
    using assms chapter_names by (simp add: identifyBookKey_def Let_def toLowerCase_def)
  have k2: "identifyBookKey f2 = ''mybook_chapter''"
    using assms chapter_names by (simp add: identifyBookKey_def Let_def toLowerCase_def)
  have t: "track_order f1 = 1" "track_order f2 = 2"
    using assms chapter_names by (simp_all add: track_order_def)
  have n: "extractBookName (fe_name f1) = ''Chapter''" "extractBookName (fe_name f2) = ''Chapter''"
    using assms chapter_names by simp_all
  let ?le = "\<lambda>a b. le (fe_name a) (fe_name b)"
  have s: "sort_by ?le files = [f1, f2] \<or> sort_by ?le files = [f2, f1]"
    using assms(8) by (auto simp: sort_by_two)
  then show ?thesis
  proof
    assume "sort_by ?le files = [f1, f2]"
    then show ?thesis
      using k1 k2 t n assms(5,6)
      by (simp add: groupFilesByBooks_def Let_def add_file_def new_book_def)
  next
    assume "sort_by ?le files = [f2, f1]"
    then show ?thesis
      using k1 k2 t n assms(5,6)
      by (simp add: groupFilesByBooks_def Let_def add_file_def new_book_def)
  qed
qed

theorem scenario_two_chapters_witness:
  "groupFilesByBooks (\<lambda>a b. False)
     [\<lparr>fe_path = ''/audiobooks/MyBook/01 - Chapter.mp3'', fe_name = ''01 - Chapter.mp3'',
        fe_directory = ''/audiobooks/MyBook'', fe_extension = ''.mp3'', fe_size = 1048576\<rparr>,
      \<lparr>fe_path = ''/audiobooks/MyBook/02 - Chapter.mp3'', fe_name = ''02 - Chapter.mp3'',
        fe_directory = ''/audiobooks/MyBook'', fe_extension = ''.mp3'', fe_size = 2097152\<rparr>]
   = [\<lparr>bg_key = ''mybook_chapter'', bg_name = ''Chapter'', bg_directory = ''/audiobooks/MyBook'',
       bg_files =
         [\<lparr>fe_path = ''/audiobooks/MyBook/01 - Chapter.mp3'', fe_name = ''01 - Chapter.mp3'',
            fe_directory = ''/audiobooks/MyBook'', fe_extension = ''.mp3'', fe_size = 1048576\<rparr>,
          \<lparr>fe_path = ''/audiobooks/MyBook/02 - Chapter.mp3'', fe_name = ''02 - Chapter.mp3'',
            fe_directory = ''/audiobooks/MyBook'', fe_extension = ''.mp3'', fe_size = 2097152\<rparr>],
       bg_totalSize = 3145728\<rparr>]"
proof -
  have b: "path_basename ''/audiobooks/MyBook'' = ''MyBook''" by code_simp
  show ?thesis
    using scenario_two_chapters
      [of "\<lparr>fe_path = ''/audiobooks/MyBook/01 - Chapter.mp3'', fe_name = ''01 - Chapter.mp3'',
            fe_directory = ''/audiobooks/MyBook'', fe_extension = ''.mp3'', fe_size = 1048576\<rparr>"
          "\<lparr>fe_path = ''/audiobooks/MyBook/02 - Chapter.mp3'', fe_name = ''02 - Chapter.mp3'',
            fe_directory = ''/audiobooks/MyBook'', fe_extension = ''.mp3'', fe_size = 2097152\<rparr>"
          "''/audiobooks/MyBook''"
          "[\<lparr>fe_path = ''/audiobooks/MyBook/01 - Chapter.mp3'', fe_name = ''01 - Chapter.mp3'',
            fe_directory = ''/audiobooks/MyBook'', fe_extension = ''.mp3'', fe_size = 1048576\<rparr>,
           \<lparr>fe_path = ''/audiobooks/MyBook/02 - Chapter.mp3'', fe_name = ''02 - Chapter.mp3'',
            fe_directory = ''/audiobooks/MyBook'', fe_extension = ''.mp3'', fe_size = 2097152\<rparr>]"
          "\<lambda>a b. False"] b
    by simp
qed

section \<open>Properties of the task queue\<close>

lemma queue_inv_create: "queue_inv n createQueue"
  by (simp add: queue_inv_def createQueue_def)

lemma queue_inv_processNext:
  assumes "length (q_running s) \<le> n"
    and "q_queue s = [] \<or> length (q_running s) = n \<or> (length (q_running s) < n \<and> length (q_queue s) = 1) \<or>
         Suc (length (q_running s)) = n"
    and "distinct (q_queue s @ q_running s @ q_completed s @ q_failed s @ q_cancelled s)"
    and "set (q_queue s @ q_running s @ q_completed s @ q_failed s @ q_cancelled s) = {..<q_next s}"
    and "sorted_wrt (<) (q_started s @ q_queue s)"
    and "set (q_started s) = set (q_running s @ q_completed s @ q_failed s)"
  shows "queue_inv n (processNext n s)"
proof (cases "q_queue s")
  case Nil
  then show ?thesis using assms by (simp add: queue_inv_def processNext_def)
next
  case (Cons w ws)
  show ?thesis
  proof (cases "length (q_running s) \<ge> n")
    case True
    then show ?thesis using assms Cons by (simp add: queue_inv_def processNext_def)
  next
    case False
    then have p: "processNext n s = s\<lparr>q_queue := ws, q_running := q_running s @ [w],
                                       q_started := q_started s @ [w]\<rparr>"
      using Cons by (simp add: processNext_def)
    have "ws = [] \<or> Suc (length (q_running s)) = n" using assms(2) False Cons by auto
    moreover have "set (ws @ (q_running s @ [w]) @ q_completed s @ q_failed s @ q_cancelled s) = {..<q_next s}"
      using assms(4) Cons by auto
    moreover have "distinct (ws @ (q_running s @ [w]) @ q_completed s @ q_failed s @ q_cancelled s)"
      using assms(3) Cons by auto
    ultimately show ?thesis
      unfolding p using assms(5,6) False Cons by (auto simp: queue_inv_def)
  qed
qed

lemma queue_inv_settle:
  assumes inv: "queue_inv n s" and run: "t \<in> set (q_running s)"
    and cf: "(c = q_completed s @ [t] \<and> f = q_failed s) \<or> (c = q_completed s \<and> f = q_failed s @ [t])"
  shows "queue_inv n (processNext n (s\<lparr>q_running := remove1 t (q_running s), q_completed := c, q_failed := f\<rparr>))"
proof -
  have i1: "length (q_running s) \<le> n" using inv by (simp add: queue_inv_def)
  have i2: "q_queue s = [] \<or> length (q_running s) = n" using inv by (simp add: queue_inv_def)
  have i3: "distinct (q_queue s @ q_running s @ q_completed s @ q_failed s @ q_cancelled s)"
    using inv by (simp add: queue_inv_def)
  have i4: "set (q_queue s @ q_running s @ q_completed s @ q_failed s @ q_cancelled s) = {..<q_next s}"
    using inv by (simp add: queue_inv_def)
  have i5: "sorted_wrt (<) (q_started s @ q_queue s)" using inv by (simp add: queue_inv_def)
  have i6: "set (q_started s) = set (q_running s @ q_completed s @ q_failed s)"
    using inv by (simp add: queue_inv_def)
  have dr: "distinct (q_running s)" using i3 by simp
  have len: "Suc (length (remove1 t (q_running s))) = length (q_running s)"
  proof -
    have "0 < length (q_running s)" using run by (cases "q_running s") auto
    then show ?thesis using run by (simp add: length_remove1)
  qed
  have sr: "set (remove1 t (q_running s)) = set (q_running s) - {t}"
    using dr by simp
  have tq: "t \<notin> set (q_queue s)" "t \<notin> set (q_completed s)" "t \<notin> set (q_failed s)" "t \<notin> set (q_cancelled s)"
    using i3 run by auto
  have cfset: "set c \<union> set f = insert t (set (q_completed s) \<union> set (q_failed s))"
    using cf by auto
  have cfd: "distinct (c @ f)"
    using cf i3 tq by auto
  have cfdisj: "(set c \<union> set f) \<inter> (set (q_queue s) \<union> (set (q_running s) - {t}) \<union> set (q_cancelled s)) = {}"
    unfolding cfset using i3 tq by auto
  let ?s = "s\<lparr>q_running := remove1 t (q_running s), q_completed := c, q_failed := f\<rparr>"
  show ?thesis
  proof (rule queue_inv_processNext)
    show "length (q_running ?s) \<le> n" using i1 len by simp
    show "q_queue ?s = [] \<or> length (q_running ?s) = n \<or>
          (length (q_running ?s) < n \<and> length (q_queue ?s) = 1) \<or> Suc (length (q_running ?s)) = n"
      using i2 len by auto
    show "distinct (q_queue ?s @ q_running ?s @ q_completed ?s @ q_failed ?s @ q_cancelled ?s)"
    proof -
      have "distinct (q_queue s @ remove1 t (q_running s) @ q_cancelled s)"
        using i3 sr by auto
      moreover have "set (c @ f) \<inter> set (q_queue s @ remove1 t (q_running s) @ q_cancelled s) = {}"
        using cfdisj sr by auto
      ultimately have "distinct ((q_queue s @ remove1 t (q_running s) @ q_cancelled s) @ (c @ f))"
        using cfd by (simp only: distinct_append) blast
      then show ?thesis by auto
    qed
    show "set (q_queue ?s @ q_running ?s @ q_completed ?s @ q_failed ?s @ q_cancelled ?s) = {..<q_next ?s}"
    proof -
      have "set (q_queue ?s @ q_running ?s @ q_completed ?s @ q_failed ?s @ q_cancelled ?s)
            = set (q_queue s) \<union> (set (q_running s) - {t}) \<union> (set c \<union> set f) \<union> set (q_cancelled s)"
        using sr by auto
      also have "\<dots> = set (q_queue s @ q_running s @ q_completed s @ q_failed s @ q_cancelled s)"
        unfolding cfset using run by auto
      finally show ?thesis using i4 by simp
    qed
    show "sorted_wrt (<) (q_started ?s @ q_queue ?s)" using i5 by simp
    show "set (q_started ?s) = set (q_running ?s @ q_completed ?s @ q_failed ?s)"
    proof -
      have "set (q_running ?s @ q_completed ?s @ q_failed ?s) = (set (q_running s) - {t}) \<union> (set c \<union> set f)"
        using sr by auto
      also have "\<dots> = set (q_running s @ q_completed s @ q_failed s)"
        unfolding cfset using run by auto
      finally show ?thesis using i6 by simp
    qed
  qed
qed

lemma queue_inv_step:
  assumes "queue_inv n s"
  shows "queue_inv n (queue_step n s e)"
proof (cases e)
  case Add
  let ?s = "s\<lparr>q_queue := q_queue s @ [q_next s], q_next := Suc (q_next s)\<rparr>"
  have fresh: "q_next s \<notin> set (q_queue s @ q_running s @ q_completed s @ q_failed s @ q_cancelled s)"
    using assms by (simp add: queue_inv_def)
  have below: "\<forall>x \<in> set (q_started s @ q_queue s). x < q_next s"
    using assms by (auto simp: queue_inv_def)
  have "queue_inv n (processNext n ?s)"
  proof (rule queue_inv_processNext)
    show "length (q_running ?s) \<le> n" using assms by (simp add: queue_inv_def)
    show "q_queue ?s = [] \<or> length (q_running ?s) = n \<or>
          (length (q_running ?s) < n \<and> length (q_queue ?s) = 1) \<or> Suc (length (q_running ?s)) = n"
      using assms by (auto simp: queue_inv_def)
    show "distinct (q_queue ?s @ q_running ?s @ q_completed ?s @ q_failed ?s @ q_cancelled ?s)"
      using assms fresh by (auto simp: queue_inv_def)
    show "set (q_queue ?s @ q_running ?s @ q_completed ?s @ q_failed ?s @ q_cancelled ?s) = {..<q_next ?s}"
      using assms by (auto simp: queue_inv_def lessThan_Suc)
    show "sorted_wrt (<) (q_started ?s @ q_queue ?s)"
      using assms below by (simp add: queue_inv_def sorted_wrt_append)
    show "set (q_started ?s) = set (q_running ?s @ q_completed ?s @ q_failed ?s)"
      using assms by (simp add: queue_inv_def)
  qed
  then show ?thesis using Add by simp
next
  case Clear
  have "sorted_wrt (<) (q_started s)"
    using assms by (simp add: queue_inv_def sorted_wrt_append)
  then show ?thesis using assms Clear by (auto simp: queue_inv_def)
next
  case (Settle t out)
  show ?thesis
  proof (cases "t \<in> set (q_running s)")
    case False
    then show ?thesis using assms Settle by (cases out) simp_all
  next
    case True
    show ?thesis
    proof (cases out)
      case Fulfilled
      have "s\<lparr>q_running := remove1 t (q_running s), q_completed := q_completed s @ [t]\<rparr>
            = s\<lparr>q_running := remove1 t (q_running s), q_completed := q_completed s @ [t], q_failed := q_failed s\<rparr>"
        by simp
      then show ?thesis
        using queue_inv_settle [OF assms True, of "q_completed s @ [t]" "q_failed s"] True Settle Fulfilled
        by simp
    next
      case Rejected
      have "s\<lparr>q_running := remove1 t (q_running s), q_failed := q_failed s @ [t]\<rparr>
            = s\<lparr>q_running := remove1 t (q_running s), q_completed := q_completed s, q_failed := q_failed s @ [t]\<rparr>"
        by simp
      then show ?thesis
        using queue_inv_settle [OF assms True, of "q_completed s" "q_failed s @ [t]"] True Settle Rejected
        by simp
    qed
  qed
qed

lemma queue_inv_foldl: "queue_inv n s \<Longrightarrow> queue_inv n (foldl (queue_step n) s es)"
  by (induction es arbitrary: s) (auto simp: queue_inv_step)

lemma queue_inv_run: "queue_inv n (queue_run n es)"
  by (simp add: queue_run_def queue_inv_foldl queue_inv_create)

lemma q_next_processNext: "q_next (processNext n s) = q_next s"
  by (simp add: processNext_def)

lemma q_next_step: "q_next (queue_step n s e) = (if e = Add then Suc (q_next s) else q_next s)"
proof (cases e)
  case (Settle t out)
  then show ?thesis by (cases out) (simp_all add: q_next_processNext)
qed (simp_all add: q_next_processNext)

lemma q_next_foldl: "q_next (foldl (queue_step n) s es) = q_next s + count_adds es"
  by (induction es arbitrary: s) (simp_all add: q_next_step count_adds_def)

lemma q_next_run: "q_next (queue_run n es) = count_adds es"
  by (simp add: queue_run_def q_next_foldl createQueue_def)

lemma settle_all_inv:
  "queue_inv n s \<Longrightarrow>
     queue_inv n (settle_all n pick result s) \<and> q_running (settle_all n pick result s) = [] \<and>
     q_next (settle_all n pick result s) = q_next s"
proof (induction n pick result s rule: settle_all.induct)
  case (1 n pick result s)
  show ?case
  proof (cases "q_running s = []")
    case True
    then show ?thesis using "1.prems" settle_all.simps [of n pick result s] by simp
  next
    case False
    let ?s = "queue_step n s (Settle (next_to_settle pick s) (result (next_to_settle pick s)))"
    have "queue_inv n ?s" using "1.prems" by (rule queue_inv_step)
    from "1.IH" [OF False this] have
      "queue_inv n (settle_all n pick result ?s) \<and> q_running (settle_all n pick result ?s) = [] \<and>
       q_next (settle_all n pick result ?s) = q_next ?s" .
    moreover have "settle_all n pick result s = settle_all n pick result ?s"
      using False settle_all.simps [of n pick result s] by simp
    moreover have "q_next ?s = q_next s" by (simp add: q_next_step)
    ultimately show ?thesis by simp
  qed
qed

lemma settle_all_done:
  assumes "queue_inv n s" and "1 \<le> n"
  shows "q_queue (settle_all n pick result s) = [] \<and> q_running (settle_all n pick result s) = [] \<and>
         set (q_completed (settle_all n pick result s) @ q_failed (settle_all n pick result s) @
              q_cancelled (settle_all n pick result s)) = {..<q_next s}"
proof -
  let ?s = "settle_all n pick result s"
  have i: "queue_inv n ?s" and r: "q_running ?s = []" and k: "q_next ?s = q_next s"
    using settle_all_inv [OF assms(1), of pick result] by simp_all
  have q: "q_queue ?s = []" using i r assms(2) by (auto simp: queue_inv_def)
  have "set (q_queue ?s @ q_running ?s @ q_completed ?s @ q_failed ?s @ q_cancelled ?s) = {..<q_next ?s}"
    using i by (simp add: queue_inv_def)
  then show ?thesis using q r k by simp
qed

lemma waiting_implies_running:
  assumes "queue_inv n s" and "1 \<le> n" and "q_queue s \<noteq> []"
  shows "q_running s \<noteq> []"
  using assms by (auto simp: queue_inv_def)

lemma settle_starts_next:
  assumes "queue_inv n s" and "t \<in> set (q_running s)" and "q_queue s = w # ws"
  shows "q_queue (queue_step n s (Settle t out)) = ws \<and>
         q_started (queue_step n s (Settle t out)) = q_started s @ [w] \<and>
         w \<in> set (q_running (queue_step n s (Settle t out)))"
proof -
  have "0 < length (q_running s)" using assms(2) by (cases "q_running s") auto
  then have len: "length (remove1 t (q_running s)) < length (q_running s)"
    using assms(2) by (simp add: length_remove1)
  have "length (q_running s) \<le> n" using assms(1) by (simp add: queue_inv_def)
  then have "\<not> n \<le> length (remove1 t (q_running s))" using len by simp
  then show ?thesis
    using assms(2,3) by (cases out) (simp_all add: processNext_def)
qed

text \<open>
  Claim C2 (amended). For every sequence of events on a queue created with concurrency \<open>n\<close>
  (tasks added, running tasks settling, the queue cleared), at most \<open>n\<close> tasks are running
  in every reachable state. Tasks are started in submission order: the tasks started so far
  followed by the waiting ones are in increasing order of submission, and whenever a running
  task settles, fulfilled or rejected, while tasks wait, the oldest waiting task is started at
  once. When \<open>n\<close> is at least 1, a task is running whenever tasks wait, and once every
  running task has settled, in whatever order and with whatever outcomes, every added task is
  completed, failed or rejected by \<open>clear\<close>, and none is left waiting or running.
\<close>

theorem queue_bound_fifo_settles:
  "length (q_running (queue_run n events)) \<le> n \<and>
   sorted_wrt (<) (q_started (queue_run n events) @ q_queue (queue_run n events)) \<and>
   (\<forall>t out w ws.
      t \<in> set (q_running (queue_run n events)) \<and> q_queue (queue_run n events) = w # ws \<longrightarrow>
      q_queue (queue_step n (queue_run n events) (Settle t out)) = ws \<and>
      q_started (queue_step n (queue_run n events) (Settle t out)) = q_started (queue_run n events) @ [w] \<and>
      w \<in> set (q_running (queue_step n (queue_run n events) (Settle t out)))) \<and>
   (1 \<le> n \<and> q_queue (queue_run n events) \<noteq> [] \<longrightarrow> q_running (queue_run n events) \<noteq> []) \<and>
   (1 \<le> n \<longrightarrow>
      q_queue (settle_all n pick result (queue_run n events)) = [] \<and>
      q_running (settle_all n pick result (queue_run n events)) = [] \<and>
      set (q_completed (settle_all n pick result (queue_run n events)) @
           q_failed (settle_all n pick result (queue_run n events)) @
           q_cancelled (settle_all n pick result (queue_run n events))) = {..<count_adds events})"
proof -
  have i: "queue_inv n (queue_run n events)" by (rule queue_inv_run)
  have 1: "length (q_running (queue_run n events)) \<le> n" using i by (simp add: queue_inv_def)
  have 2: "sorted_wrt (<) (q_started (queue_run n events) @ q_queue (queue_run n events))"
    using i by (simp add: queue_inv_def)
  have 3: "\<forall>t out w ws.
      t \<in> set (q_running (queue_run n events)) \<and> q_queue (queue_run n events) = w # ws \<longrightarrow>
      q_queue (queue_step n (queue_run n events) (Settle t out)) = ws \<and>
      q_started (queue_step n (queue_run n events) (Settle t out)) = q_started (queue_run n events) @ [w] \<and>
      w \<in> set (q_running (queue_step n (queue_run n events) (Settle t out)))"
    using settle_starts_next [OF i] by blast
  have 4: "1 \<le> n \<and> q_queue (queue_run n events) \<noteq> [] \<longrightarrow> q_running (queue_run n events) \<noteq> []"
    using waiting_implies_running [OF i] by blast
  have 5: "1 \<le> n \<longrightarrow>
      q_queue (settle_all n pick result (queue_run n events)) = [] \<and>
      q_running (settle_all n pick result (queue_run n events)) = [] \<and>
      set (q_completed (settle_all n pick result (queue_run n events)) @
           q_failed (settle_all n pick result (queue_run n events)) @
           q_cancelled (settle_all n pick result (queue_run n events))) = {..<count_adds events}"
    using settle_all_done [OF i, of pick result] q_next_run [of n events] by simp
  show ?thesis using 1 2 3 4 5 by blast
qed

theorem queue_bound_fifo_settles_witness:
  "length (q_running (queue_run 2 [Add, Add, Add, Settle 1 Rejected, Add])) \<le> 2 \<and>
   q_queue (queue_run 2 [Add, Add, Add, Settle 1 Rejected, Add]) = [3] \<and>
   q_queue (queue_step 2 (queue_run 2 [Add, Add, Add, Settle 1 Rejected, Add]) (Settle 0 Fulfilled)) = [] \<and>
   q_started (queue_step 2 (queue_run 2 [Add, Add, Add, Settle 1 Rejected, Add]) (Settle 0 Fulfilled))
     = q_started (queue_run 2 [Add, Add, Add, Settle 1 Rejected, Add]) @ [3] \<and>
   q_queue (settle_all 2 (\<lambda>s. last (q_running s)) (\<lambda>t. if t = 2 then Rejected else Fulfilled)
              (queue_run 2 [Add, Add, Add, Settle 1 Rejected, Add])) = [] \<and>
   q_running (settle_all 2 (\<lambda>s. last (q_running s)) (\<lambda>t. if t = 2 then Rejected else Fulfilled)
              (queue_run 2 [Add, Add, Add, Settle 1 Rejected, Add])) = [] \<and>
   set (q_completed (settle_all 2 (\<lambda>s. last (q_running s)) (\<lambda>t. if t = 2 then Rejected else Fulfilled)
              (queue_run 2 [Add, Add, Add, Settle 1 Rejected, Add])) @
        q_failed (settle_all 2 (\<lambda>s. last (q_running s)) (\<lambda>t. if t = 2 then Rejected else Fulfilled)
              (queue_run 2 [Add, Add, Add, Settle 1 Rejected, Add])) @
        q_cancelled (settle_all 2 (\<lambda>s. last (q_running s)) (\<lambda>t. if t = 2 then Rejected else Fulfilled)
              (queue_run 2 [Add, Add, Add, Settle 1 Rejected, Add]))) = {..<4}"
proof -
  have c: "count_adds [Add, Add, Add, Settle 1 Rejected, Add] = 4" by code_simp
  have t: "0 \<in> set (q_running (queue_run 2 [Add, Add, Add, Settle 1 Rejected, Add]))"
    by code_simp
  have q: "q_queue (queue_run 2 [Add, Add, Add, Settle 1 Rejected, Add]) = [3]"
    by code_simp
  have n: "(1::nat) \<le> 2" by simp
  note th = queue_bound_fifo_settles [of 2 "[Add, Add, Add, Settle 1 Rejected, Add]"
            "\<lambda>s. last (q_running s)" "\<lambda>t. if t = 2 then Rejected else Fulfilled", unfolded c]
  from th n t q show ?thesis by blast
qed

text \<open>
  Claim C2 as stated fails for a queue created with concurrency 0: \<open>processNext\<close> returns
  at \<open>running >= concurrency\<close>, no task is ever started and the three added tasks wait
  for ever.
\<close>

theorem queue_zero_concurrency_counterexample:
  "q_queue (settle_all 0 (\<lambda>s. 0) (\<lambda>t. Fulfilled) (queue_run 0 [Add, Add, Add])) = [0, 1, 2] \<and>
   q_running (settle_all 0 (\<lambda>s. 0) (\<lambda>t. Fulfilled) (queue_run 0 [Add, Add, Add])) = [] \<and>
   q_started (settle_all 0 (\<lambda>s. 0) (\<lambda>t. Fulfilled) (queue_run 0 [Add, Add, Add])) = [] \<and>
   q_completed (settle_all 0 (\<lambda>s. 0) (\<lambda>t. Fulfilled) (queue_run 0 [Add, Add, Add])) = [] \<and>
   q_failed (settle_all 0 (\<lambda>s. 0) (\<lambda>t. Fulfilled) (queue_run 0 [Add, Add, Add])) = [] \<and>
   q_cancelled (settle_all 0 (\<lambda>s. 0) (\<lambda>t. Fulfilled) (queue_run 0 [Add, Add, Add])) = []"
  by code_simp

section \<open>Properties of directory scanning\<close>

lemma unlimited_fields:
  "opt_aborted (options\<lparr>opt_maxDepth := 0\<rparr>) = opt_aborted options"
  "opt_recursive (options\<lparr>opt_maxDepth := 0\<rparr>) = opt_recursive options"
  "opt_followSymlinks (options\<lparr>opt_maxDepth := 0\<rparr>) = opt_followSymlinks options"
  "skipped_hidden (options\<lparr>opt_maxDepth := 0\<rparr>) name = skipped_hidden options name"
  by (simp_all add: skipped_hidden_def)

lemma scan_pruned:
  fixes valid :: "string \<Rightarrow> bool"
  shows
  "0 < opt_maxDepth options \<Longrightarrow>
     scanDirectoryRecursive valid options dirPath currentDepth dir =
     scanDirectoryRecursive valid (options\<lparr>opt_maxDepth := 0\<rparr>) dirPath currentDepth
       (prune_listing (nat (opt_maxDepth options) + 1 - currentDepth) dir)"
  "0 < opt_maxDepth options \<Longrightarrow> int currentDepth \<le> opt_maxDepth options \<Longrightarrow>
     scan_entries valid options dirPath currentDepth entries =
     scan_entries valid (options\<lparr>opt_maxDepth := 0\<rparr>) dirPath currentDepth
       (map (prune_node (nat (opt_maxDepth options) - currentDepth)) entries)"
  "0 < opt_maxDepth options \<Longrightarrow> int currentDepth \<le> opt_maxDepth options \<Longrightarrow>
     scan_entry valid options dirPath currentDepth entry =
     scan_entry valid (options\<lparr>opt_maxDepth := 0\<rparr>) dirPath currentDepth
       (prune_node (nat (opt_maxDepth options) - currentDepth) entry)"
proof (induction valid options dirPath currentDepth dir and valid options dirPath currentDepth entries
         and valid options dirPath currentDepth entry
       rule: scanDirectoryRecursive_scan_entries_scan_entry.induct)
  case (1 valid options dirPath currentDepth)
  then show ?case by simp
next
  case (2 valid options dirPath currentDepth entries)
  show ?case
  proof (cases "opt_aborted options")
    case True
    then show ?thesis
      by (cases "nat (opt_maxDepth options) + 1 - currentDepth") (simp_all add: unlimited_fields)
  next
    case False
    show ?thesis
    proof (cases "int currentDepth > opt_maxDepth options")
      case True
      then have "nat (opt_maxDepth options) + 1 - currentDepth = 0" using "2.prems" by arith
      then show ?thesis using True False "2.prems" by (simp add: unlimited_fields)
    next
      case deep: False
      then have k: "nat (opt_maxDepth options) + 1 - currentDepth = Suc (nat (opt_maxDepth options) - currentDepth)"
        using "2.prems" by arith
      have k': "Suc (nat (opt_maxDepth options)) - currentDepth = Suc (nat (opt_maxDepth options) - currentDepth)"
        using k by simp
      have le: "int currentDepth \<le> opt_maxDepth options" using deep by simp
      have "\<not> (0 < opt_maxDepth options \<and> opt_maxDepth options < int currentDepth)" using deep by simp
      from "2.IH" [OF False this "2.prems" le]
      show ?thesis using False deep by (simp add: k k' unlimited_fields)
    qed
  qed
next
  case (3 valid options dirPath currentDepth)
  then show ?case by simp
next
  case (4 valid options dirPath currentDepth entry rest)
  have e: "scan_entry valid options dirPath currentDepth entry =
           scan_entry valid (options\<lparr>opt_maxDepth := 0\<rparr>) dirPath currentDepth
             (prune_node (nat (opt_maxDepth options) - currentDepth) entry)"
    using "4.IH"(1) "4.prems" by simp
  show ?case
  proof (cases "scan_entry valid options dirPath currentDepth entry")
    case None
    then show ?thesis by (simp add: e [symmetric])
  next
    case (Some found)
    from "4.IH"(2) [OF Some "4.prems"] show ?thesis using Some by (simp add: e [symmetric])
  qed
next
  case (5 valid options dirPath currentDepth name stats)
  then show ?case by (simp add: unlimited_fields)
next
  case (6 valid options dirPath currentDepth name sub)
  show ?case
  proof (cases "\<not> skipped_hidden options name \<and> opt_recursive options")
    case True
    have "nat (opt_maxDepth options) + 1 - (currentDepth + 1) = nat (opt_maxDepth options) - currentDepth"
      by simp
    then show ?thesis using "6.IH" True "6.prems" by (simp add: unlimited_fields)
  next
    case False
    then show ?thesis by (auto simp: unlimited_fields)
  qed
next
  case (7 valid options dirPath currentDepth name resolvedPath sub)
  show ?case
  proof (cases "\<not> (skipped_hidden options name \<or> \<not> opt_followSymlinks options) \<and> opt_recursive options")
    case True
    have "nat (opt_maxDepth options) + 1 - (currentDepth + 1) = nat (opt_maxDepth options) - currentDepth"
      by simp
    then show ?thesis using "7.IH" True "7.prems" by (simp add: unlimited_fields)
  next
    case False
    then show ?thesis by (auto simp: unlimited_fields)
  qed
next
  case (8 valid options dirPath currentDepth name resolvedPath stats)
  then show ?case by (simp add: unlimited_fields)
qed (simp_all)


lemma prune_idem:
  "prune_listing k (prune_listing k dir) = prune_listing k dir"
  "prune_node k (prune_node k entry) = prune_node k entry"
  by (induction k dir and k entry rule: prune_listing_prune_node.induct) simp_all

lemma scan_only_reads_top_levels:
  assumes "0 < opt_maxDepth options"
  shows "scanDirectoryRecursive valid options dirPath 1 dir =
         scanDirectoryRecursive valid options dirPath 1 (prune_listing (nat (opt_maxDepth options)) dir)"
proof -
  let ?d = "nat (opt_maxDepth options)"
  have "scanDirectoryRecursive valid options dirPath 1 (prune_listing ?d dir) =
        scanDirectoryRecursive valid (options\<lparr>opt_maxDepth := 0\<rparr>) dirPath 1
          (prune_listing (?d + 1 - 1) (prune_listing ?d dir))"
    using assms by (rule scan_pruned(1))
  also have "\<dots> = scanDirectoryRecursive valid (options\<lparr>opt_maxDepth := 0\<rparr>) dirPath 1
          (prune_listing (?d + 1 - 1) dir)"
    by (simp add: prune_idem)
  also have "\<dots> = scanDirectoryRecursive valid options dirPath 1 dir"
    using assms by (rule scan_pruned(1) [symmetric])
  finally show ?thesis by simp
qed

text \<open>
  Claim C5 (amended). When the max depth in force for a scan is a positive integer \<open>d\<close>, it
  is a hard ceiling: \<open>scanDirectory\<close> returns what it returns on the tree cut off \<open>d\<close> levels
  below the root, so nothing deeper than \<open>d\<close> levels is read or returned. A configured
  \<open>maxScanDepth\<close> of 0 does not mean "no limit": with no \<open>maxDepth\<close> given in the options
  of the call, the depth in force is the default 5.
\<close>

theorem scan_depth_ceiling:
  "(0 < opt_maxDepth (merge_options (defaultScanOptions config) request) \<longrightarrow>
      scanDirectory valid config request dirPath (Directory dir) =
      scanDirectory valid config request dirPath
        (Directory (prune_listing (nat (opt_maxDepth (merge_options (defaultScanOptions config) request))) dir))) \<and>
   (cfg_maxScanDepth config = Some 0 \<and> req_maxDepth request = None \<longrightarrow>
      opt_maxDepth (merge_options (defaultScanOptions config) request) = 5)"
proof (intro conjI impI)
  assume "0 < opt_maxDepth (merge_options (defaultScanOptions config) request)"
  from scan_only_reads_top_levels [OF this]
  show "scanDirectory valid config request dirPath (Directory dir) =
      scanDirectory valid config request dirPath
        (Directory (prune_listing (nat (opt_maxDepth (merge_options (defaultScanOptions config) request))) dir))"
    by (simp add: scanDirectory_def)
next
  assume "cfg_maxScanDepth config = Some 0 \<and> req_maxDepth request = None"
  then show "opt_maxDepth (merge_options (defaultScanOptions config) request) = 5"
    by (simp add: merge_options_def defaultScanOptions_def)
qed

theorem scan_depth_ceiling_witness:
  "opt_maxDepth (merge_options (defaultScanOptions \<lparr>cfg_maxScanDepth = None, cfg_followSymlinks = None, cfg_includeHidden = None\<rparr>)
      \<lparr>req_recursive = None, req_maxDepth = Some 2, req_followSymlinks = None, req_includeHidden = None,
        req_aborted = False\<rparr>) = 2 \<and>
   scanDirectory (\<lambda>p. True) \<lparr>cfg_maxScanDepth = None, cfg_followSymlinks = None, cfg_includeHidden = None\<rparr>
      \<lparr>req_recursive = None, req_maxDepth = Some 2, req_followSymlinks = None, req_includeHidden = None,
        req_aborted = False\<rparr> ''/lib''
      (Directory (Entries [FileNode ''one.mp3'' (Some 10),
                 DirNode ''Saga'' (Entries [FileNode ''two.m4b'' (Some 20),
                   DirNode ''Extras'' (Entries [FileNode ''three.mp3'' (Some 30)])])]))
   = scanDirectory (\<lambda>p. True) \<lparr>cfg_maxScanDepth = None, cfg_followSymlinks = None, cfg_includeHidden = None\<rparr>
      \<lparr>req_recursive = None, req_maxDepth = Some 2, req_followSymlinks = None, req_includeHidden = None,
        req_aborted = False\<rparr> ''/lib''
      (Directory (Entries [FileNode ''one.mp3'' (Some 10),
                 DirNode ''Saga'' (Entries [FileNode ''two.m4b'' (Some 20),
                   DirNode ''Extras'' (Entries [])])])) \<and>
   scanDirectory (\<lambda>p. True) \<lparr>cfg_maxScanDepth = None, cfg_followSymlinks = None, cfg_includeHidden = None\<rparr>
      \<lparr>req_recursive = None, req_maxDepth = Some 2, req_followSymlinks = None, req_includeHidden = None,
        req_aborted = False\<rparr> ''/lib''
      (Directory (Entries [FileNode ''one.mp3'' (Some 10),
                 DirNode ''Saga'' (Entries [FileNode ''two.m4b'' (Some 20),
                   DirNode ''Extras'' (Entries [FileNode ''three.mp3'' (Some 30)])])]))
   = ReturnedFiles
       [\<lparr>fe_path = ''/lib/one.mp3'', fe_name = ''one.mp3'', fe_directory = ''/lib'',
           fe_extension = ''.mp3'', fe_size = 10\<rparr>,
         \<lparr>fe_path = ''/lib/Saga/two.m4b'', fe_name = ''two.m4b'', fe_directory = ''/lib/Saga'',
           fe_extension = ''.m4b'', fe_size = 20\<rparr>] \<and>
   opt_maxDepth (merge_options (defaultScanOptions \<lparr>cfg_maxScanDepth = Some 0, cfg_followSymlinks = None, cfg_includeHidden = None\<rparr>)
      \<lparr>req_recursive = None, req_maxDepth = None, req_followSymlinks = None, req_includeHidden = None,
        req_aborted = False\<rparr>) = 5"
proof -
  have d: "opt_maxDepth (merge_options (defaultScanOptions \<lparr>cfg_maxScanDepth = None, cfg_followSymlinks = None, cfg_includeHidden = None\<rparr>)
      \<lparr>req_recursive = None, req_maxDepth = Some 2, req_followSymlinks = None, req_includeHidden = None,
        req_aborted = False\<rparr>) = 2"
    by (simp add: merge_options_def)
  have p: "prune_listing (nat 2) (Entries [FileNode ''one.mp3'' (Some 10),
                 DirNode ''Saga'' (Entries [FileNode ''two.m4b'' (Some 20),
                   DirNode ''Extras'' (Entries [FileNode ''three.mp3'' (Some 30)])])])
      = (Entries [FileNode ''one.mp3'' (Some 10),
                 DirNode ''Saga'' (Entries [FileNode ''two.m4b'' (Some 20),
                   DirNode ''Extras'' (Entries [])])])"
    by code_simp
  have e: "scanDirectory (\<lambda>p. True) \<lparr>cfg_maxScanDepth = None, cfg_followSymlinks = None, cfg_includeHidden = None\<rparr>
      \<lparr>req_recursive = None, req_maxDepth = Some 2, req_followSymlinks = None, req_includeHidden = None,
        req_aborted = False\<rparr> ''/lib''
      (Directory (Entries [FileNode ''one.mp3'' (Some 10),
                 DirNode ''Saga'' (Entries [FileNode ''two.m4b'' (Some 20),
                   DirNode ''Extras'' (Entries [FileNode ''three.mp3'' (Some 30)])])]))
   = ReturnedFiles
       [\<lparr>fe_path = ''/lib/one.mp3'', fe_name = ''one.mp3'', fe_directory = ''/lib'',
           fe_extension = ''.mp3'', fe_size = 10\<rparr>,
         \<lparr>fe_path = ''/lib/Saga/two.m4b'', fe_name = ''two.m4b'', fe_directory = ''/lib/Saga'',
           fe_extension = ''.m4b'', fe_size = 20\<rparr>]"
    by code_simp
  have a: "scanDirectory (\<lambda>p. True) \<lparr>cfg_maxScanDepth = None, cfg_followSymlinks = None, cfg_includeHidden = None\<rparr>
      \<lparr>req_recursive = None, req_maxDepth = Some 2, req_followSymlinks = None, req_includeHidden = None,
        req_aborted = False\<rparr> ''/lib''
      (Directory (Entries [FileNode ''one.mp3'' (Some 10),
                 DirNode ''Saga'' (Entries [FileNode ''two.m4b'' (Some 20),
                   DirNode ''Extras'' (Entries [FileNode ''three.mp3'' (Some 30)])])]))
   = scanDirectory (\<lambda>p. True) \<lparr>cfg_maxScanDepth = None, cfg_followSymlinks = None, cfg_includeHidden = None\<rparr>
      \<lparr>req_recursive = None, req_maxDepth = Some 2, req_followSymlinks = None, req_includeHidden = None,
        req_aborted = False\<rparr> ''/lib''
      (Directory (Entries [FileNode ''one.mp3'' (Some 10),
                 DirNode ''Saga'' (Entries [FileNode ''two.m4b'' (Some 20),
                   DirNode ''Extras'' (Entries [])])]))"
    using scan_depth_ceiling [of "\<lparr>cfg_maxScanDepth = None, cfg_followSymlinks = None, cfg_includeHidden = None\<rparr>"
      "\<lparr>req_recursive = None, req_maxDepth = Some 2, req_followSymlinks = None, req_includeHidden = None,
        req_aborted = False\<rparr>" "\<lambda>p. True" "''/lib''"
      "(Entries [FileNode ''one.mp3'' (Some 10),
                 DirNode ''Saga'' (Entries [FileNode ''two.m4b'' (Some 20),
                   DirNode ''Extras'' (Entries [FileNode ''three.mp3'' (Some 30)])])])"] d p
    by simp
  have b: "opt_maxDepth (merge_options (defaultScanOptions \<lparr>cfg_maxScanDepth = Some 0, cfg_followSymlinks = None, cfg_includeHidden = None\<rparr>)
      \<lparr>req_recursive = None, req_maxDepth = None, req_followSymlinks = None, req_includeHidden = None,
        req_aborted = False\<rparr>) = 5"
    using scan_depth_ceiling [of "\<lparr>cfg_maxScanDepth = Some 0, cfg_followSymlinks = None, cfg_includeHidden = None\<rparr>"
      "\<lparr>req_recursive = None, req_maxDepth = None, req_followSymlinks = None, req_includeHidden = None,
        req_aborted = False\<rparr>"]
    by simp
  show ?thesis using d a e b by simp
qed

text \<open>
  Claim C5 as stated fails for a scan called with \<open>maxDepth: 0\<close> in its options: the depth
  check \<open>options.maxDepth > 0 && currentDepth > options.maxDepth\<close> is then off, and a file
  seven levels below the root is returned (with \<open>maxDepth: 6\<close> it is not).
\<close>

theorem scan_depth_zero_counterexample:
  "scanDirectory (\<lambda>p. True) \<lparr>cfg_maxScanDepth = None, cfg_followSymlinks = None, cfg_includeHidden = None\<rparr>
      \<lparr>req_recursive = None, req_maxDepth = Some 0, req_followSymlinks = None, req_includeHidden = None,
        req_aborted = False\<rparr> ''/lib''
      (Directory (Entries [DirNode ''a'' (Entries [DirNode ''b'' (Entries [DirNode ''c'' (Entries
          [DirNode ''d'' (Entries [DirNode ''e'' (Entries [DirNode ''f'' (Entries
             [FileNode ''deep.mp3'' (Some 7)])])])])])])]))
   = ReturnedFiles
       [\<lparr>fe_path = ''/lib/a/b/c/d/e/f/deep.mp3'', fe_name = ''deep.mp3'',
          fe_directory = ''/lib/a/b/c/d/e/f'', fe_extension = ''.mp3'', fe_size = 7\<rparr>] \<and>
   scanDirectory (\<lambda>p. True) \<lparr>cfg_maxScanDepth = None, cfg_followSymlinks = None, cfg_includeHidden = None\<rparr>
      \<lparr>req_recursive = None, req_maxDepth = Some 6, req_followSymlinks = None, req_includeHidden = None,
        req_aborted = False\<rparr> ''/lib''
      (Directory (Entries [DirNode ''a'' (Entries [DirNode ''b'' (Entries [DirNode ''c'' (Entries
          [DirNode ''d'' (Entries [DirNode ''e'' (Entries [DirNode ''f'' (Entries
             [FileNode ''deep.mp3'' (Some 7)])])])])])])]))
   = ReturnedFiles []"
  by code_simp

lemma scan_entries_append:
  "scan_entries valid options dirPath depth (xs @ ys) =
     (case scan_entries valid options dirPath depth xs of
        None \<Rightarrow> None
      | Some found \<Rightarrow>
          (case scan_entries valid options dirPath depth ys of
             None \<Rightarrow> None
           | Some others \<Rightarrow> Some (found @ others)))"
  by (induction xs) (auto split: option.splits)

lemma unreadable_subdirectory_entry:
  "scan_entry valid options dirPath depth (DirNode name Unreadable) = Some []"
  by simp

text \<open>
  Claim C6, at the input where the code departs from it: a root directory that exists but
  cannot be listed. \<open>_scanDirectoryRecursive\<close> catches the error of \<open>readdir\<close> for the root
  as for any other directory, and \<open>scanDirectory\<close> returns the empty list, not a failure. A
  root that does not exist makes \<open>scanDirectory\<close> return the error object. The second half
  of the claim holds: a subdirectory that cannot be listed contributes no files and the scan
  of its siblings goes on as if it were not there.
\<close>

theorem unreadable_root_and_subdirectory:
  "scanDirectory valid config request dirPath (Directory Unreadable) =
     (if valid dirPath then ReturnedFiles [] else ReturnedError InvalidPath) \<and>
   scanDirectory valid config request dirPath DoesNotExist =
     (if valid dirPath then ReturnedError DirectoryDoesNotExist else ReturnedError InvalidPath) \<and>
   scan_entries valid options dir depth (before @ DirNode name Unreadable # after) =
     scan_entries valid options dir depth (before @ after)"
proof -
  have "scan_entries valid options dir depth (DirNode name Unreadable # after) =
        scan_entries valid options dir depth after"
    by (simp split: option.splits)
  then have "scan_entries valid options dir depth (before @ DirNode name Unreadable # after) =
     scan_entries valid options dir depth (before @ after)"
    by (simp only: scan_entries_append [of valid options dir depth before])
  then show ?thesis by (simp add: scanDirectory_def)
qed

section \<open>Properties of path sanitizing\<close>

lemma single_spaced_Cons:
  "single_spaced (c # cs) \<longleftrightarrow>
     (\<not> is_space c \<or> (c = CHR '' '' \<and> (cs = [] \<or> \<not> is_space (hd cs)))) \<and> single_spaced cs"
  by (cases cs) auto

lemma single_spaced_append:
  "single_spaced (a @ b) \<longleftrightarrow>
     single_spaced a \<and> single_spaced b \<and> (a = [] \<or> b = [] \<or> \<not> is_space (last a) \<or> \<not> is_space (hd b))"
proof (induction a)
  case Nil
  then show ?case by simp
next
  case (Cons c cs)
  show ?case
  proof (cases cs)
    case Nil
    then show ?thesis by (cases b) (auto simp: single_spaced_Cons)
  next
    case (Cons d ds)
    then show ?thesis using Cons.IH by (auto simp: single_spaced_Cons)
  qed
qed

lemma single_spaced_sublist:
  assumes "sublist q s" and "single_spaced s"
  shows "single_spaced q"
proof -
  from assms(1) obtain pre suf where "s = pre @ q @ suf" by (auto simp: sublist_def)
  then show ?thesis using assms(2) by (simp add: single_spaced_append)
qed

lemma collapse_spaces_hd:
  "s \<noteq> [] \<Longrightarrow> collapse_spaces s \<noteq> [] \<and>
     hd (collapse_spaces s) = (if is_space (hd s) then CHR '' '' else hd s)"
  by (induction s rule: collapse_spaces.induct) auto

lemma single_spaced_collapse: "single_spaced (collapse_spaces s)"
proof (induction s rule: collapse_spaces.induct)
  case 1 then show ?case by simp
next
  case (2 c) then show ?case by (simp add: is_space_def)
next
  case (3 c d cs)
  have h: "collapse_spaces (d # cs) \<noteq> [] \<and>
           (\<not> is_space d \<longrightarrow> hd (collapse_spaces (d # cs)) = d)"
    using collapse_spaces_hd [of "d # cs"] by simp
  show ?case
  proof (cases "is_space c")
    case True
    then show ?thesis using 3 h by (auto simp: single_spaced_Cons is_space_def)
  next
    case False
    then show ?thesis using 3 by (auto simp: single_spaced_Cons)
  qed
qed

lemma free_of_invalid_append [simp]:
  "free_of_invalid (a @ b) \<longleftrightarrow> free_of_invalid a \<and> free_of_invalid b"
  by (simp add: free_of_invalid_def)

lemma free_of_invalid_sublist:
  assumes "sublist q s" and "free_of_invalid s"
  shows "free_of_invalid q"
proof -
  from assms(1) obtain pre suf where "s = pre @ q @ suf" by (auto simp: sublist_def)
  then show ?thesis using assms(2) by simp
qed

lemma free_of_invalid_replace: "free_of_invalid (replace_invalid s)"
  by (induction s) (auto simp: free_of_invalid_def replace_invalid_def invalidChars_def)

lemma free_of_invalid_collapse: "free_of_invalid s \<Longrightarrow> free_of_invalid (collapse_spaces s)"
  by (induction s rule: collapse_spaces.induct) (auto simp: free_of_invalid_def invalidChars_def)

lemma sublist_trans: "sublist a b \<Longrightarrow> sublist b c \<Longrightarrow> sublist a c"
  by (rule sublist_order.order.trans)

lemma sublist_strip: "sublist (strip_trailing_slashes p) p"
  by (simp add: strip_trailing_slashes_def sublist_rev_left)

lemma sublist_last_segment: "sublist (last_segment p) p"
  by (simp add: last_segment_def sublist_rev_left)

lemma sublist_before_last_segment: "sublist (before_last_segment p) p"
  by (simp add: before_last_segment_def sublist_rev_left)

lemma sublist_component: "sublist (last_segment (strip_trailing_slashes p)) p"
  using sublist_last_segment sublist_strip by (rule sublist_trans)

lemma dirname_cases:
  "path_dirname p = ''.'' \<or> path_dirname p = ''/'' \<or> path_dirname p = ''//'' \<or> sublist (path_dirname p) p"
proof -
  have "sublist (butlast (before_last_segment (strip_trailing_slashes p))) p"
    using sublist_butlast sublist_before_last_segment sublist_strip by (blast intro: sublist_trans)
  then show ?thesis by (auto simp: path_dirname_def Let_def)
qed

lemma last_dot_suffix:
  assumes "CHR ''.'' \<in> set seg"
  shows "suffix (CHR ''.'' # rev (takeWhile (\<lambda>c. c \<noteq> CHR ''.'') (rev seg))) seg"
proof -
  let ?P = "\<lambda>c. c \<noteq> CHR ''.''"
  have "dropWhile ?P (rev seg) \<noteq> []" using assms by (simp add: dropWhile_eq_Nil_conv)
  then obtain d ds where d: "dropWhile ?P (rev seg) = d # ds" by (cases "dropWhile ?P (rev seg)") auto
  then have "\<not> ?P d" using hd_dropWhile [of ?P "rev seg"] by fastforce
  then have dd: "d = CHR ''.''" by simp
  have "rev seg = takeWhile ?P (rev seg) @ d # ds"
    using takeWhile_dropWhile_id [of ?P "rev seg"] d by simp
  then have "seg = rev ds @ CHR ''.'' # rev (takeWhile ?P (rev seg))"
    using dd by (metis rev_append rev.simps(2) rev_rev_ident append.assoc append_Cons append_Nil)
  then show ?thesis by (metis suffixI)
qed

lemma extname_cases:
  "path_extname p = [] \<or> (sublist (path_extname p) p \<and> hd (path_extname p) = CHR ''.'')"
proof (cases "path_extname p = []")
  case True then show ?thesis by simp
next
  case False
  let ?component = "last_segment (strip_trailing_slashes p)"
  from False have dot: "CHR ''.'' \<in> set ?component"
    and e: "path_extname p = CHR ''.'' # rev (takeWhile (\<lambda>c. c \<noteq> CHR ''.'') (rev ?component))"
    by (auto simp: path_extname_def Let_def split: if_splits)
  have "sublist (path_extname p) ?component"
    unfolding e using last_dot_suffix [OF dot] by (rule suffix_imp_sublist)
  then have "sublist (path_extname p) p" using sublist_component by (rule sublist_trans)
  then show ?thesis using e by simp
qed

lemma rev_all_equal: "list_all (\<lambda>c. c = x) xs \<Longrightarrow> rev xs = xs"
proof (induction xs)
  case Nil then show ?case by simp
next
  case (Cons a as)
  then have "as = replicate (length as) x" "a = x"
    by (auto simp: list_all_iff intro: replicate_eqI)
  then have "a # as = replicate (Suc (length as)) x" by simp
  then show ?case by (metis rev_replicate)
qed

lemma trailing_slashes:
  "p = strip_trailing_slashes p @ takeWhile is_slash (rev p)"
proof -
  have "list_all (\<lambda>c. c = CHR ''/'') (takeWhile is_slash (rev p))"
    by (auto simp: list_all_iff is_slash_def dest: set_takeWhileD)
  then have r: "rev (takeWhile is_slash (rev p)) = takeWhile is_slash (rev p)" by (rule rev_all_equal)
  have "rev p = takeWhile is_slash (rev p) @ dropWhile is_slash (rev p)" by simp
  then have "p = rev (dropWhile is_slash (rev p)) @ rev (takeWhile is_slash (rev p))"
    by (metis rev_append rev_rev_ident)
  then show ?thesis using r by (simp add: strip_trailing_slashes_def)
qed

lemma sublist_basename_ext: "sublist (path_basename_ext p e) p"
proof -
  let ?body = "strip_trailing_slashes p"
  let ?component = "last_segment ?body"
  have c: "sublist ?component p" by (rule sublist_component)
  have t: "sublist (take k ?component) p" for k
    using sublist_take c by (rule sublist_trans)
  have s: "sublist (?component @ takeWhile is_slash (rev p)) p"
  proof -
    have "suffix ?component ?body" by (simp add: last_segment_def suffix_to_prefix takeWhile_is_prefix)
    then obtain pre where "?body = pre @ ?component" by (auto simp: suffix_def)
    then have "p = pre @ ?component @ takeWhile is_slash (rev p)"
      using trailing_slashes [of p] by (metis append.assoc)
    then show ?thesis by (metis sublist_append_leftI)
  qed
  show ?thesis using c t s by (auto simp: path_basename_ext_def Let_def)
qed

lemma split_slash_sublist:
  "seg \<in> set (split_slash_from acc p) \<Longrightarrow> sublist seg (rev acc @ p)"
proof (induction p arbitrary: acc)
  case Nil
  then show ?case by simp
next
  case (Cons c cs)
  show ?case
  proof (cases "is_slash c")
    case True
    then have "seg = rev acc \<or> seg \<in> set (split_slash_from [] cs)" using Cons.prems by simp
    then show ?thesis
    proof
      assume "seg = rev acc"
      then show ?thesis by simp
    next
      assume "seg \<in> set (split_slash_from [] cs)"
      then have "sublist seg cs" using Cons.IH [of "[]"] by simp
      then have "sublist seg ((rev acc @ [c]) @ cs)" by (metis sublist_append_leftI sublist_trans)
      then show ?thesis by simp
    qed
  next
    case False
    then have "seg \<in> set (split_slash_from (c # acc) cs)" using Cons.prems by simp
    from Cons.IH [OF this] show ?thesis by simp
  qed
qed

lemma normalize_step_subset:
  "set (normalize_step a stack seg) \<subseteq> set stack \<union> {seg}"
  by (cases stack) (auto simp: normalize_step_def)

lemma normalize_foldl_subset:
  "set (foldl (normalize_step a) stack segs) \<subseteq> set stack \<union> set segs"
proof (induction segs arbitrary: stack)
  case Nil
  then show ?case by simp
next
  case (Cons seg segs)
  have "set (foldl (normalize_step a) (normalize_step a stack seg) segs)
          \<subseteq> set (normalize_step a stack seg) \<union> set segs"
    by (rule Cons.IH)
  then show ?case using normalize_step_subset [of a stack seg] by auto
qed

lemma slash_ok: "CHR ''/'' \<notin> set invalidChars" "\<not> is_space CHR ''/''"
  "CHR ''.'' \<notin> set invalidChars" "\<not> is_space CHR ''.''"
  by (simp_all add: invalidChars_def is_space_def)

lemma single_spaced_slash_Cons: "single_spaced (CHR ''/'' # s) = single_spaced s"
  by (simp add: single_spaced_Cons slash_ok)

lemma single_spaced_snoc_slash: "single_spaced (s @ ''/'') = single_spaced s"
  by (simp add: single_spaced_append slash_ok)

lemma join_slash_ok:
  assumes "\<forall>s \<in> set segs. free_of_invalid s \<and> single_spaced s"
  shows "free_of_invalid (join_slash segs) \<and> single_spaced (join_slash segs)"
  using assms
proof (induction segs rule: join_slash.induct)
  case 1 then show ?case by (simp add: free_of_invalid_def)
next
  case (2 s) then show ?case by simp
next
  case (3 s t ss)
  then have "free_of_invalid (join_slash (t # ss)) \<and> single_spaced (join_slash (t # ss))" by simp
  moreover have "free_of_invalid s \<and> single_spaced s" using "3.prems" by simp
  ultimately show ?case
    by (simp add: single_spaced_append single_spaced_slash_Cons slash_ok free_of_invalid_def)
qed

lemma normalize_ok:
  assumes "free_of_invalid p" and "single_spaced p"
  shows "free_of_invalid (path_normalize p) \<and> single_spaced (path_normalize p)"
proof -
  let ?stack = "foldl (normalize_step (\<not> is_slash (hd p))) [] (split_slash_from [] p)"
  have "\<forall>s \<in> set (rev ?stack). free_of_invalid s \<and> single_spaced s"
  proof
    fix s assume "s \<in> set (rev ?stack)"
    then have "s \<in> set (split_slash_from [] p)"
      using normalize_foldl_subset [of "\<not> is_slash (hd p)" "[]" "split_slash_from [] p"] by auto
    then have "sublist s p" using split_slash_sublist [of s "[]" p] by simp
    then show "free_of_invalid s \<and> single_spaced s"
      using assms free_of_invalid_sublist single_spaced_sublist by blast
  qed
  then have j: "free_of_invalid (join_slash (rev ?stack)) \<and> single_spaced (join_slash (rev ?stack))"
    by (rule join_slash_ok)
  have c: "free_of_invalid ''.'' \<and> single_spaced ''.'' \<and> free_of_invalid ''/'' \<and> single_spaced ''/'' \<and>
           free_of_invalid ''./'' \<and> single_spaced ''./''"
    by (simp add: free_of_invalid_def slash_ok)
  show ?thesis
    using j c
    by (auto simp: path_normalize_def Let_def single_spaced_slash_Cons single_spaced_snoc_slash
          free_of_invalid_def slash_ok)
qed

lemma split_slash_weight:
  "(\<Sum>s\<leftarrow>split_slash_from acc p. length s + 1) = length acc + length p + 1"
  by (induction p arbitrary: acc) auto

lemma normalize_step_weight:
  "(\<Sum>s\<leftarrow>normalize_step a stack seg. length s + 1)
     \<le> (\<Sum>s\<leftarrow>stack. length s + 1) + (if seg = [] then 0 else length seg + 1)"
  by (cases stack) (auto simp: normalize_step_def)

lemma normalize_foldl_weight:
  "(\<Sum>s\<leftarrow>foldl (normalize_step a) stack segs. length s + 1)
     \<le> (\<Sum>s\<leftarrow>stack. length s + 1) + (\<Sum>s\<leftarrow>filter (\<lambda>s. s \<noteq> []) segs. length s + 1)"
proof (induction segs arbitrary: stack)
  case Nil
  then show ?case by simp
next
  case (Cons seg segs)
  have "(\<Sum>s\<leftarrow>foldl (normalize_step a) (normalize_step a stack seg) segs. length s + 1)
          \<le> (\<Sum>s\<leftarrow>normalize_step a stack seg. length s + 1) +
             (\<Sum>s\<leftarrow>filter (\<lambda>s. s \<noteq> []) segs. length s + 1)"
    by (rule Cons.IH)
  then show ?case using normalize_step_weight [of a stack seg] by (cases "seg = []") simp_all
qed

lemma weight_split_empty:
  "(\<Sum>s\<leftarrow>filter (\<lambda>s. s \<noteq> []) segs. length s + 1) + length (filter (\<lambda>s. s = []) segs)
     = (\<Sum>s\<leftarrow>segs. length s + 1)"
  by (induction segs) auto

lemma join_slash_length: "length (join_slash segs) = (\<Sum>s\<leftarrow>segs. length s + 1) - 1"
  by (induction segs rule: join_slash.induct) auto

lemma weight_rev: "(\<Sum>s\<leftarrow>rev segs. length s + 1) = (\<Sum>s\<leftarrow>segs. length (s::string) + 1)"
  by (induction segs) auto

lemma split_slash_empties:
  "(if acc = [] \<and> p \<noteq> [] \<and> is_slash (hd p) then 1 else 0) +
   (if p \<noteq> [] \<and> is_slash (last p) then 1 else 0)
     \<le> length (filter (\<lambda>s. s = []) (split_slash_from acc p))"
proof (induction p arbitrary: acc)
  case Nil
  then show ?case by simp
next
  case (Cons c cs)
  show ?case
  proof (cases "is_slash c")
    case True
    show ?thesis
    proof (cases "cs = []")
      case True
      then show ?thesis using \<open>is_slash c\<close> by simp
    next
      case False
      then show ?thesis using \<open>is_slash c\<close> Cons.IH [of "[]"] by simp
    qed
  next
    case False
    show ?thesis
    proof (cases "cs = []")
      case True
      then show ?thesis using \<open>\<not> is_slash c\<close> by simp
    next
      case nonempty: False
      then show ?thesis using False Cons.IH [of "c # acc"] by simp
    qed
  qed
qed

lemma normalize_length:
  assumes "p \<noteq> []"
  shows "length (path_normalize p) \<le> length p"
proof -
  let ?a = "\<not> is_slash (hd p)"
  let ?segs = "split_slash_from [] p"
  let ?stack = "foldl (normalize_step ?a) [] ?segs"
  let ?res = "join_slash (rev ?stack)"
  let ?E = "length (filter (\<lambda>s. s = []) ?segs)"
  let ?W = "(\<Sum>s\<leftarrow>filter (\<lambda>s. s \<noteq> []) ?segs. length s + 1)"
  have w: "(\<Sum>s\<leftarrow>?stack. length s + 1) \<le> ?W"
    using normalize_foldl_weight [of ?a "[]" ?segs] by simp
  have all: "?W + ?E = length p + 1"
    using weight_split_empty [of ?segs] split_slash_weight [of "[]" p] by simp
  have e: "(if is_slash (hd p) then 1 else 0) + (if is_slash (last p) then 1 else 0) \<le> ?E"
    using split_slash_empties [of "[]" p] assms by simp
  have len: "length ?res = (\<Sum>s\<leftarrow>?stack. length s + 1) - 1"
    by (simp only: join_slash_length weight_rev)
  show ?thesis
  proof (cases "?res = []")
    case True
    have "\<not> is_slash (hd p) \<Longrightarrow> is_slash (last p) \<Longrightarrow> 2 \<le> length p"
    proof -
      assume h: "\<not> is_slash (hd p)" "is_slash (last p)"
      then have "hd p \<noteq> last p" by auto
      then show "2 \<le> length p" using assms
        by (cases p) (auto simp: Suc_le_eq split: if_splits)
    qed
    moreover have "1 \<le> length p" using assms by (cases p) auto
    ultimately show ?thesis using True assms by (auto simp: path_normalize_def Let_def)
  next
    case False
    then have pos: "1 \<le> (\<Sum>s\<leftarrow>?stack. length s + 1)" using len by (cases ?stack) auto
    have "length (path_normalize p) =
            (if is_slash (hd p) then 1 else 0) + length ?res + (if is_slash (last p) then 1 else 0)"
      using False assms by (simp add: path_normalize_def Let_def)
    then show ?thesis using len pos w all e by (auto split: if_splits)
  qed
qed

lemma sanitized_ok:
  "free_of_invalid (collapse_spaces (replace_invalid p)) \<and>
   single_spaced (collapse_spaces (replace_invalid p))"
  by (simp add: free_of_invalid_collapse free_of_invalid_replace single_spaced_collapse)

lemma dirname_ok:
  assumes "free_of_invalid s" and "single_spaced s"
  shows "free_of_invalid (path_dirname s) \<and> single_spaced (path_dirname s)"
proof -
  have c: "free_of_invalid ''.'' \<and> single_spaced ''.'' \<and> free_of_invalid ''/'' \<and> single_spaced ''/'' \<and>
           free_of_invalid ''//'' \<and> single_spaced ''//''"
    by (simp add: free_of_invalid_def slash_ok)
  show ?thesis
    using dirname_cases [of s] c assms free_of_invalid_sublist single_spaced_sublist
    by metis
qed

lemma extname_ok:
  assumes "free_of_invalid s" and "single_spaced s"
  shows "free_of_invalid (path_extname s) \<and> single_spaced (path_extname s)"
proof (cases "path_extname s = []")
  case True
  then show ?thesis by (simp add: free_of_invalid_def)
next
  case False
  then have "sublist (path_extname s) s" using extname_cases [of s] by simp
  then show ?thesis using assms free_of_invalid_sublist single_spaced_sublist by blast
qed

lemma truncated_name_ok:
  assumes "free_of_invalid s" and "single_spaced s"
  shows "free_of_invalid (take n (path_basename_ext s e) @ path_extname s) \<and>
         single_spaced (take n (path_basename_ext s e) @ path_extname s)"
proof -
  have "sublist (take n (path_basename_ext s e)) s"
    using sublist_take sublist_basename_ext by (rule sublist_trans)
  then have t: "free_of_invalid (take n (path_basename_ext s e)) \<and> single_spaced (take n (path_basename_ext s e))"
    using assms free_of_invalid_sublist single_spaced_sublist by blast
  have x: "free_of_invalid (path_extname s) \<and> single_spaced (path_extname s)"
    using assms by (rule extname_ok)
  have "path_extname s = [] \<or> \<not> is_space (hd (path_extname s))"
    using extname_cases [of s] slash_ok by auto
  then show ?thesis using t x by (auto simp: single_spaced_append)
qed

lemma path_join_ok:
  assumes "free_of_invalid a \<and> single_spaced a" and "free_of_invalid b \<and> single_spaced b"
  shows "free_of_invalid (path_join a b) \<and> single_spaced (path_join a b)"
proof -
  have "free_of_invalid (a @ CHR ''/'' # b) \<and> single_spaced (a @ CHR ''/'' # b)"
    using assms by (simp add: single_spaced_append single_spaced_slash_Cons slash_ok free_of_invalid_def)
  moreover have "free_of_invalid ''.'' \<and> single_spaced ''.''"
    by (simp add: free_of_invalid_def slash_ok)
  ultimately show ?thesis
    using assms normalize_ok by (simp add: path_join_def)
qed

lemma path_join_length: "length (path_join a b) \<le> max 1 (length a + 1 + length b)"
proof -
  have "length (path_normalize (a @ CHR ''/'' # b)) \<le> length a + 1 + length b"
    using normalize_length [of "a @ CHR ''/'' # b"] by simp
  moreover have "a \<noteq> [] \<Longrightarrow> length (path_normalize a) \<le> length a" by (rule normalize_length)
  moreover have "b \<noteq> [] \<Longrightarrow> length (path_normalize b) \<le> length b" by (rule normalize_length)
  ultimately show ?thesis by (auto simp: path_join_def)
qed

text \<open>
  Claim C7 (amended). For every input path, the path produced by \<open>_sanitizeFilePath\<close>
  contains none of the characters \<open>< > : " | ? *\<close> and backslash, and every run of
  whitespace in it is a single space. A path that is at most 240 characters long after these
  replacements is returned as it is. When it is longer and its directory part and extension
  leave room for a base name (their lengths plus 1 for the separator are at most 240), the
  result has length at most 240: it is \<open>path.join\<close> of the directory part with the base name
  cut to the remaining length followed by the extension, so only the base name of the last
  segment is cut.
\<close>

theorem sanitizeFilePath_safe:
  "free_of_invalid (sanitizeFilePath p) \<and> single_spaced (sanitizeFilePath p) \<and>
   (length (collapse_spaces (replace_invalid p)) \<le> 240 \<longrightarrow>
      sanitizeFilePath p = collapse_spaces (replace_invalid p)) \<and>
   (length (collapse_spaces (replace_invalid p)) > 240 \<and>
    length (path_dirname (collapse_spaces (replace_invalid p))) +
      length (path_extname (collapse_spaces (replace_invalid p))) + 1 \<le> 240 \<longrightarrow>
      length (sanitizeFilePath p) \<le> 240 \<and>
      sanitizeFilePath p =
        path_join (path_dirname (collapse_spaces (replace_invalid p)))
          (take (240 - length (path_dirname (collapse_spaces (replace_invalid p)))
                     - length (path_extname (collapse_spaces (replace_invalid p))) - 1)
             (path_basename_ext (collapse_spaces (replace_invalid p))
                (path_extname (collapse_spaces (replace_invalid p))))
           @ path_extname (collapse_spaces (replace_invalid p))))"
proof -
  let ?s = "collapse_spaces (replace_invalid p)"
  let ?ext = "path_extname ?s"
  let ?dir = "path_dirname ?s"
  let ?base = "path_basename_ext ?s ?ext"
  let ?n = "nat (int MAX_PATH_LENGTH - int (length ?dir) - int (length ?ext) - 1)"
  have s: "free_of_invalid ?s \<and> single_spaced ?s" by (rule sanitized_ok)
  have long: "sanitizeFilePath p = path_join ?dir (take ?n ?base @ ?ext)" if "length ?s > 240"
    using that by (simp add: sanitizeFilePath_def Let_def MAX_PATH_LENGTH_def substring_from_start_def)
  have short: "sanitizeFilePath p = ?s" if "length ?s \<le> 240"
    using that by (simp add: sanitizeFilePath_def Let_def MAX_PATH_LENGTH_def)
  have d: "free_of_invalid ?dir \<and> single_spaced ?dir" using s dirname_ok by blast
  have t: "free_of_invalid (take ?n ?base @ ?ext) \<and> single_spaced (take ?n ?base @ ?ext)"
    using s truncated_name_ok by blast
  have j: "free_of_invalid (path_join ?dir (take ?n ?base @ ?ext)) \<and>
           single_spaced (path_join ?dir (take ?n ?base @ ?ext))"
    using d t by (rule path_join_ok)
  have 1: "free_of_invalid (sanitizeFilePath p) \<and> single_spaced (sanitizeFilePath p)"
  proof (cases "length ?s > 240")
    case True
    then show ?thesis using long j by simp
  next
    case False
    then show ?thesis using short s by simp
  qed
  have 2: "length ?s \<le> 240 \<longrightarrow> sanitizeFilePath p = ?s" using short by simp
  have 3: "length ?s > 240 \<and> length ?dir + length ?ext + 1 \<le> 240 \<longrightarrow>
      length (sanitizeFilePath p) \<le> 240 \<and>
      sanitizeFilePath p = path_join ?dir (take (240 - length ?dir - length ?ext - 1) ?base @ ?ext)"
  proof
    assume h: "length ?s > 240 \<and> length ?dir + length ?ext + 1 \<le> 240"
    then have n: "?n = 240 - length ?dir - length ?ext - 1" by (simp add: MAX_PATH_LENGTH_def)
    have "length (path_join ?dir (take ?n ?base @ ?ext)) \<le> max 1 (length ?dir + 1 + length (take ?n ?base @ ?ext))"
      by (rule path_join_length)
    also have "\<dots> \<le> 240"
    proof -
      have "length (take ?n ?base) \<le> 240 - length ?dir - length ?ext - 1"
        unfolding n by simp
      then show ?thesis using h by (simp only: length_append) linarith
    qed
    finally show "length (sanitizeFilePath p) \<le> 240 \<and>
      sanitizeFilePath p = path_join ?dir (take (240 - length ?dir - length ?ext - 1) ?base @ ?ext)"
      using long h n by simp
  qed
  show ?thesis using 1 2 3 by blast
qed

theorem sanitizeFilePath_safe_witness:
  "240 < length (collapse_spaces (replace_invalid (''/out/A: B  C/'' @ replicate 250 CHR ''x'' @ ''.mp3''))) \<and>
   sanitizeFilePath (''/out/A: B  C/'' @ replicate 250 CHR ''x'' @ ''.mp3'')
     = ''/out/A_ B C/'' @ replicate 224 CHR ''x'' @ ''.mp3'' \<and>
   length (sanitizeFilePath (''/out/A: B  C/'' @ replicate 250 CHR ''x'' @ ''.mp3'')) \<le> 240 \<and>
   free_of_invalid (sanitizeFilePath (''/out/A: B  C/'' @ replicate 250 CHR ''x'' @ ''.mp3'')) \<and>
   single_spaced (sanitizeFilePath (''/out/A: B  C/'' @ replicate 250 CHR ''x'' @ ''.mp3''))"
proof -
  have h: "240 < length (collapse_spaces (replace_invalid (''/out/A: B  C/'' @ replicate 250 CHR ''x'' @ ''.mp3''))) \<and>
           length (path_dirname (collapse_spaces (replace_invalid (''/out/A: B  C/'' @ replicate 250 CHR ''x'' @ ''.mp3'')))) +
           length (path_extname (collapse_spaces (replace_invalid (''/out/A: B  C/'' @ replicate 250 CHR ''x'' @ ''.mp3'')))) + 1 \<le> 240"
    by code_simp
  have e: "sanitizeFilePath (''/out/A: B  C/'' @ replicate 250 CHR ''x'' @ ''.mp3'')
     = ''/out/A_ B C/'' @ replicate 224 CHR ''x'' @ ''.mp3''"
    by code_simp
  show ?thesis
    using sanitizeFilePath_safe [of "''/out/A: B  C/'' @ replicate 250 CHR ''x'' @ ''.mp3''"] h e
    by blast
qed

text \<open>
  Claim C7 as stated fails when the directory part alone is too long: for a directory of
  250 characters followed by \<open>/b.mp3\<close> the base name is cut to nothing and the result
  still has 255 characters.
\<close>

theorem sanitizeFilePath_long_directory_counterexample:
  "240 < length (collapse_spaces (replace_invalid (replicate 250 CHR ''a'' @ ''/b.mp3''))) \<and>
   sanitizeFilePath (replicate 250 CHR ''a'' @ ''/b.mp3'') = replicate 250 CHR ''a'' @ ''/.mp3'' \<and>
   length (sanitizeFilePath (replicate 250 CHR ''a'' @ ''/b.mp3'')) = 255"
  by code_simp


end
